theory Spec2Isabelle
  imports Main "HOL-Library.Word"
begin

unbundle bit_operations_syntax

section \<open>Data model of \<open>src/core/PacketParser.cc\<close>\<close>

text \<open>
  The parser overlays packed header structures on the bytes of a received frame and
  records, per OpenFlow match field, a pointer to the bytes holding that field.
  In the model a pointer into the frame is its byte offset from \<open>data\<close>; the only
  other object pointed to is the member \<open>in_port\<close>.  The null pointer is \<open>None\<close>.
\<close>

type_synonym byte = "8 word"

text \<open>
  The members of \<open>of::oxm::basic_match_fields\<close> that the source names.  The
  enumeration is declared outside the source file; its remaining members are
  \<open>OFB_OTHER k\<close>.  The table \<open>bindings\<close> has one slot per member.
\<close>

datatype basic_match_fields =
    IN_PORT | ETH_DST | ETH_SRC | ETH_TYPE | VLAN_VID
  | IP_PROTO | IPV4_SRC | IPV4_DST
  | TCP_SRC | TCP_DST | UDP_SRC | UDP_DST
  | ARP_OP | ARP_SPA | ARP_TPA | ARP_SHA | ARP_THA
  | DHCP_OP | DHCP_XID | DHCP_CIADDR | DHCP_YIADDR | DHCP_CHADDR
  | OFB_OTHER nat

datatype ptr = InPortMember | PacketData nat

text \<open>
  How a call ends other than by returning: a failed \<open>ASSERT\<close> (one constructor per
  assertion of the source), or a read or write through a pointer that is outside the
  object it points into, which C++ leaves undefined and the model reports.
\<close>

datatype fault =
    AlreadyBound basic_match_fields
  | NotBound basic_match_fields
  | UnsupportedNamespace nat
  | UnsupportedField basic_match_fields
  | OutOfBounds ptr

definition bindF :: "fault + 'a \<Rightarrow> ('a \<Rightarrow> fault + 'b) \<Rightarrow> fault + 'b" where
  "bindF m f = (case m of Inl e \<Rightarrow> Inl e | Inr x \<Rightarrow> f x)"

text \<open>
  Modelled from the spec: the structure \<open>dhcp_opt\<close> is declared in the header, which
  is not part of the source.  The spec gives an entry as code, length and a view of
  \<open>length\<close> bytes in the buffer, and the default-constructed entry as the explicit
  empty sentinel.
\<close>

record dhcp_opt =
  opt_code :: byte
  opt_len :: byte
  opt_data :: "nat option"

definition dhcp_opt_empty :: dhcp_opt where
  "dhcp_opt_empty = \<lparr>opt_code = 0, opt_len = 0, opt_data = None\<rparr>"

text \<open>
  The members of the class.  \<open>data_len\<close> is the length of \<open>data\<close>.  \<open>in_port\<close> is held
  as its four bytes in network order.  \<open>vlan_tagged\<close> is \<open>None\<close> until the source
  assigns it: the constructor does not initialise it.
\<close>

record packet_parser =
  data :: "byte list"
  in_port :: "byte list"
  bindings :: "basic_match_fields \<Rightarrow> ptr option"
  vlan_tagged :: "bool option"
  dhcp_options :: "byte \<rightharpoonup> dhcp_opt"

record packet_in =
  pi_data :: "byte list option"
  pi_in_port :: "32 word"

section \<open>Reading the frame\<close>

definition rd8 :: "packet_parser \<Rightarrow> nat \<Rightarrow> fault + byte" where
  "rd8 p off =
     (if off < length (data p) then Inr (data p ! off) else Inl (OutOfBounds (PacketData off)))"

definition be16 :: "byte \<Rightarrow> byte \<Rightarrow> 16 word" where
  "be16 hi lo = push_bit 8 (ucast hi) OR ucast lo"

definition rd16 :: "packet_parser \<Rightarrow> nat \<Rightarrow> fault + 16 word" where
  "rd16 p off = bindF (rd8 p off) (\<lambda>hi. bindF (rd8 p (off + 1)) (\<lambda>lo. Inr (be16 hi lo)))"

definition be32 :: "32 word \<Rightarrow> byte list" where
  "be32 w = [ucast (drop_bit 24 w), ucast (drop_bit 16 w), ucast (drop_bit 8 w), ucast w]"

section \<open>The binding table\<close>

text \<open>
  \<open>PacketParser::bind\<close> is \<open>bind_fields\<close>, the name \<open>bind\<close> being taken by the library.  Both
  functions go through the list in order; an entry that fails its assertion ends the
  call, after the entries before it have been stored.
\<close>

fun bind_fields ::
  "packet_parser \<Rightarrow> (basic_match_fields \<times> ptr option) list \<Rightarrow> fault + packet_parser" where
  "bind_fields p [] = Inr p"
| "bind_fields p ((f, q) # new_bindings) =
     (if bindings p f \<noteq> None then Inl (AlreadyBound f)
      else bind_fields (p\<lparr>bindings := (bindings p)(f := q)\<rparr>) new_bindings)"

fun rebind ::
  "packet_parser \<Rightarrow> (basic_match_fields \<times> ptr option) list \<Rightarrow> fault + packet_parser" where
  "rebind p [] = Inr p"
| "rebind p ((f, q) # new_bindings) =
     (if bindings p f = None then Inl (NotBound f)
      else rebind (p\<lparr>bindings := (bindings p)(f := q)\<rparr>) new_bindings)"

section \<open>The layered parser\<close>

text \<open>
  The header structures are packed: every member is an unaligned big-endian type, so a
  member's offset is the sum of the sizes before it and \<open>sizeof\<close> is the sum of all, as
  the source asserts for each structure (for \<open>dhcp_hdr\<close>, whose last member is a
  flexible array, 34).  The parsing functions take the pointer \<open>data\<close> as an offset \<open>d\<close>
  into the frame and \<open>data_len\<close> as given by the caller.  A subtraction on \<open>size_t\<close>
  is written as on \<open>nat\<close> where the source guards it by a comparison.

  \<open>cookie_at\<close> is the nested condition of the scan loop that looks for the bytes
  \<open>63 82 53 63\<close> at \<open>tmp\<close>; each further byte is read only when its index passed the
  comparison with \<open>data_len - 34\<close>.
\<close>

definition cookie_at :: "packet_parser \<Rightarrow> nat \<Rightarrow> nat \<Rightarrow> nat \<Rightarrow> fault + bool" where
  "cookie_at p opts n i =
     bindF (rd8 p (opts + i)) (\<lambda>b0.
       if b0 \<noteq> 0x63 then Inr False
       else if \<not> i + 1 \<le> n then Inr False
       else bindF (rd8 p (opts + i + 1)) (\<lambda>b1.
         if b1 \<noteq> 0x82 then Inr False
         else if \<not> i + 2 \<le> n then Inr False
         else bindF (rd8 p (opts + i + 2)) (\<lambda>b2.
           if b2 \<noteq> 0x53 then Inr False
           else if \<not> i + 3 \<le> n then Inr False
           else bindF (rd8 p (opts + i + 3)) (\<lambda>b3. Inr (b3 = 0x63)))))"

text \<open>
  The loop of \<open>parse_dhcp\<close>: \<open>opts\<close> is the offset of \<open>dhcp->options\<close>, \<open>n\<close> is
  \<open>data_len - 34\<close>, \<open>i\<close> and \<open>flag\<close> are the loop's variables.  Each recursive call
  passes the value of \<open>i\<close> after the body's own increment and the loop's \<open>++i\<close>.
\<close>

function dhcp_scan ::
  "packet_parser \<Rightarrow> nat \<Rightarrow> nat \<Rightarrow> nat \<Rightarrow> bool \<Rightarrow> fault + packet_parser" where
  "dhcp_scan p opts n i flag =
     (if i \<le> n then
        (if flag then
           bindF (rd8 p (opts + i)) (\<lambda>c.
             if c = 0xFF then Inr p
             else bindF (rd8 p (opts + i + 1)) (\<lambda>l.
               dhcp_scan
                 (p\<lparr>dhcp_options := (dhcp_options p)
                      (c \<mapsto> \<lparr>opt_code = c, opt_len = l, opt_data = Some (opts + i + 2)\<rparr>)\<rparr>)
                 opts n (i + (unat l + 1) + 1) True))
         else
           bindF (cookie_at p opts n i) (\<lambda>found.
             if found then dhcp_scan p opts n (i + 3 + 1) True
             else dhcp_scan p opts n (i + 1) False))
      else Inr p)"
  by pat_completeness auto
termination
  by (relation "measure (\<lambda>(p, opts, n, i, flag). Suc n - i)") auto

declare dhcp_scan.simps [simp del]

definition parse_dhcp :: "packet_parser \<Rightarrow> nat \<Rightarrow> nat \<Rightarrow> fault + packet_parser" where
  "parse_dhcp p d data_len =
     (if 34 \<le> data_len then
        bindF (bind_fields p
                 [(DHCP_OP, Some (PacketData d)),
                  (DHCP_XID, Some (PacketData (d + 4))),
                  (DHCP_CIADDR, Some (PacketData (d + 12))),
                  (DHCP_YIADDR, Some (PacketData (d + 16))),
                  (DHCP_CHADDR, Some (PacketData (d + 28)))])
          (\<lambda>p1. dhcp_scan p1 (d + 34) (data_len - 34) 0 False)
      else Inr p)"

definition parse_l4 :: "packet_parser \<Rightarrow> byte \<Rightarrow> nat \<Rightarrow> nat \<Rightarrow> fault + packet_parser" where
  "parse_l4 p protocol d data_len =
     (if protocol = 0x06 then
        (if 20 \<le> data_len then
           bind_fields p [(TCP_SRC, Some (PacketData d)), (TCP_DST, Some (PacketData (d + 2)))]
         else Inr p)
      else if protocol = 0x11 then
        (if 8 \<le> data_len then
           bindF (bind_fields p
                    [(UDP_SRC, Some (PacketData d)), (UDP_DST, Some (PacketData (d + 2)))])
             (\<lambda>p1.
               if data_len > 8 then
                 bindF (rd16 p1 d) (\<lambda>src.
                   if src = 68 then
                     bindF (rd16 p1 (d + 2)) (\<lambda>dst.
                       if dst = 67 then parse_dhcp p1 (d + 8) (data_len - 8) else Inr p1)
                   else Inr p1)
               else Inr p1)
         else Inr p)
      else Inr p)"

text \<open>
  \<open>ihl\<close> is the first bit-field of the first byte of \<open>ipv4_hdr\<close>: its low four bits
  under the ABI the structure is written for.
\<close>

definition header_length :: "byte \<Rightarrow> nat" where
  "header_length b = unat (b AND 0x0F) * 4"

definition parse_l3 :: "packet_parser \<Rightarrow> 16 word \<Rightarrow> nat \<Rightarrow> nat \<Rightarrow> fault + packet_parser" where
  "parse_l3 p eth_type d data_len =
     (if eth_type = 0x0800 then
        (if 20 \<le> data_len then
           bindF (bind_fields p
                    [(IP_PROTO, Some (PacketData (d + 9))),
                     (IPV4_SRC, Some (PacketData (d + 12))),
                     (IPV4_DST, Some (PacketData (d + 16)))])
             (\<lambda>p1.
               bindF (rd8 p1 d) (\<lambda>b.
                 if data_len > header_length b then
                   bindF (rd8 p1 (d + 9)) (\<lambda>protocol.
                     parse_l4 p1 protocol (d + header_length b) (data_len - header_length b))
                 else Inr p1))
         else Inr p)
      else if eth_type = 0x0806 then
        (if 28 \<le> data_len then
           bindF (rd16 p d) (\<lambda>htype.
             if htype \<noteq> 1 then Inr p
             else bindF (rd16 p (d + 2)) (\<lambda>ptype.
               if ptype \<noteq> 0x0800 then Inr p
               else bindF (rd8 p (d + 4)) (\<lambda>hlen.
                 if hlen \<noteq> 6 then Inr p
                 else bindF (rd8 p (d + 5)) (\<lambda>plen.
                   if plen \<noteq> 4 then Inr p
                   else bind_fields p
                     [(ARP_OP, Some (PacketData (d + 6))),
                      (ARP_SHA, Some (PacketData (d + 8))),
                      (ARP_THA, Some (PacketData (d + 18))),
                      (ARP_SPA, Some (PacketData (d + 14))),
                      (ARP_TPA, Some (PacketData (d + 24)))]))))
         else Inr p)
      else Inr p)"

definition parse_l2 :: "packet_parser \<Rightarrow> nat \<Rightarrow> nat \<Rightarrow> fault + packet_parser" where
  "parse_l2 p d data_len =
     (if 14 \<le> data_len then
        bindF (rd16 p (d + 12)) (\<lambda>ty.
          if ty = 0x8100 then
            bindF (bind_fields (p\<lparr>vlan_tagged := Some True\<rparr>)
                     [(ETH_TYPE, Some (PacketData (d + 16))),
                      (ETH_SRC, Some (PacketData (d + 6))),
                      (ETH_DST, Some (PacketData d)),
                      (VLAN_VID, Some (PacketData (d + 14)))])
              (\<lambda>p1. bindF (rd16 p1 (d + 16)) (\<lambda>l3_type.
                 parse_l3 p1 l3_type (d + 14 + 4) (data_len - 14)))
          else
            bindF (bind_fields (p\<lparr>vlan_tagged := Some False\<rparr>)
                     [(ETH_TYPE, Some (PacketData (d + 12))),
                      (ETH_SRC, Some (PacketData (d + 6))),
                      (ETH_DST, Some (PacketData d)),
                      (VLAN_VID, None)])
              (\<lambda>p1. bindF (rd16 p1 (d + 12)) (\<lambda>l3_type.
                 parse_l3 p1 l3_type (d + 14 + 0) (data_len - 14))))
      else Inr p)"

text \<open>
  The constructor: \<open>bindings.fill(nullptr)\<close>, the binding of \<open>IN_PORT\<close> to the member,
  and the parse when \<open>data\<close> is not null.  The option table starts empty.
\<close>

definition init_parser :: "packet_in \<Rightarrow> packet_parser" where
  "init_parser pi =
     \<lparr>data = (case pi_data pi of None \<Rightarrow> [] | Some bs \<Rightarrow> bs),
      in_port = be32 (pi_in_port pi),
      bindings = (\<lambda>f. None),
      vlan_tagged = None,
      dhcp_options = Map.empty\<rparr>"

definition PacketParser :: "packet_in \<Rightarrow> fault + packet_parser" where
  "PacketParser pi =
     bindF (bind_fields (init_parser pi) [(IN_PORT, Some InPortMember)]) (\<lambda>p.
       case pi_data pi of
         None \<Rightarrow> Inr p
       | Some bs \<Rightarrow> parse_l2 p 0 (length bs))"

definition get_dhcp_option :: "packet_parser \<Rightarrow> byte \<Rightarrow> dhcp_opt" where
  "get_dhcp_option p c = (case dhcp_options p c of None \<Rightarrow> dhcp_opt_empty | Some e \<Rightarrow> e)"

definition vlanTagged :: "packet_parser \<Rightarrow> bool option" where
  "vlanTagged p = vlan_tagged p"

section \<open>The field accessor\<close>

text \<open>
  An \<open>oxm::type\<close> is a namespace, a field number and a width in bits.  The numeric
  value of \<open>of::oxm::ns::OPENFLOW_BASIC\<close> is declared outside the source file; no
  result below depends on it.
\<close>

record oxm_type =
  type_ns :: nat
  type_id :: basic_match_fields
  type_nbits :: nat

definition OPENFLOW_BASIC :: nat where
  "OPENFLOW_BASIC = 0x8000"

text \<open>
  The second assertion of \<open>access\<close> also compares the field number with the size of the
  table; with one slot per member of the enumeration that comparison holds.
\<close>

definition access :: "packet_parser \<Rightarrow> oxm_type \<Rightarrow> fault + ptr" where
  "access p t =
     (if type_ns t \<noteq> OPENFLOW_BASIC then Inl (UnsupportedNamespace (type_ns t))
      else case bindings p (type_id t) of
             None \<Rightarrow> Inl (UnsupportedField (type_id t))
           | Some q \<Rightarrow> Inr q)"

text \<open>
  Modelled from the spec: the classes \<open>bits<>\<close>, \<open>oxm::mask<>\<close>, \<open>oxm::value<>\<close> and
  \<open>oxm::field<>\<close> with their operators are not part of the source.  The spec has a
  value as the big-endian bit string of the field's declared width that starts at the
  bound location, \<open>&\<close> as the bitwise AND of value and mask paired with the mask,
  \<open>mask<>(type)\<close> as the mask of all bits, \<open>>>\<close> as replacing the bits the patch's mask
  selects by the patch's value bits, and \<open>to_buffer\<close> as writing the bit string back
  to the location.  A bit string is a list of bits, most significant first.
\<close>

definition byte_bits :: "byte \<Rightarrow> bool list" where
  "byte_bits b = rev (map (bit b) [0..<8])"

definition bits_byte :: "bool list \<Rightarrow> byte" where
  "bits_byte bs = horner_sum of_bool 2 (rev bs)"

definition bits_of :: "byte list \<Rightarrow> bool list" where
  "bits_of m = concat (map byte_bits m)"

fun bytes_of :: "bool list \<Rightarrow> byte list" where
  "bytes_of (b7 # b6 # b5 # b4 # b3 # b2 # b1 # b0 # bs) =
     bits_byte [b7, b6, b5, b4, b3, b2, b1, b0] # bytes_of bs"
| "bytes_of _ = []"

record oxm_mask =
  mask_type :: oxm_type
  mask_bits :: "bool list"

record oxm_field =
  field_type :: oxm_type
  value_bits :: "bool list"
  field_mask :: "bool list"

definition exact_mask :: "oxm_type \<Rightarrow> oxm_mask" where
  "exact_mask t = \<lparr>mask_type = t, mask_bits = replicate (type_nbits t) True\<rparr>"

definition value_and_mask :: "oxm_type \<Rightarrow> bool list \<Rightarrow> oxm_mask \<Rightarrow> oxm_field" where
  "value_and_mask t v m =
     \<lparr>field_type = t, value_bits = map2 (\<and>) v (mask_bits m), field_mask = mask_bits m\<rparr>"

definition apply_patch :: "oxm_field \<Rightarrow> oxm_field \<Rightarrow> oxm_field" where
  "apply_patch cur patch =
     \<lparr>field_type = field_type cur,
      value_bits = map2 (\<lambda>v (pv, pm). if pm then pv else v)
                     (value_bits cur) (zip (value_bits patch) (field_mask patch)),
      field_mask = map2 (\<or>) (field_mask cur) (field_mask patch)\<rparr>"

text \<open>The object a pointer points into, with the offset of the pointer in it.\<close>

fun cells :: "packet_parser \<Rightarrow> ptr \<Rightarrow> byte list \<times> nat" where
  "cells p InPortMember = (in_port p, 0)"
| "cells p (PacketData k) = (data p, k)"

fun put_cells :: "packet_parser \<Rightarrow> ptr \<Rightarrow> byte list \<Rightarrow> packet_parser" where
  "put_cells p InPortMember m = p\<lparr>in_port := m\<rparr>"
| "put_cells p (PacketData k) m = p\<lparr>data := m\<rparr>"

definition bits_from :: "packet_parser \<Rightarrow> nat \<Rightarrow> ptr \<Rightarrow> fault + bool list" where
  "bits_from p nb q =
     (case cells p q of (m, k) \<Rightarrow>
        if 8 * k + nb \<le> 8 * length m then Inr (take nb (drop (8 * k) (bits_of m)))
        else Inl (OutOfBounds q))"

definition to_buffer :: "packet_parser \<Rightarrow> bool list \<Rightarrow> ptr \<Rightarrow> fault + packet_parser" where
  "to_buffer p bs q =
     (case cells p q of (m, k) \<Rightarrow>
        if 8 * k + length bs \<le> 8 * length m then
          Inr (put_cells p q
                 (bytes_of (take (8 * k) (bits_of m) @ bs @ drop (8 * k + length bs) (bits_of m))))
        else Inl (OutOfBounds q))"

definition load :: "packet_parser \<Rightarrow> oxm_mask \<Rightarrow> fault + oxm_field" where
  "load p msk =
     bindF (access p (mask_type msk)) (\<lambda>q.
       bindF (bits_from p (type_nbits (mask_type msk)) q) (\<lambda>bs.
         Inr (value_and_mask (mask_type msk) bs msk)))"

definition modify :: "packet_parser \<Rightarrow> oxm_field \<Rightarrow> fault + packet_parser" where
  "modify p patch =
     bindF (load p (exact_mask (field_type patch))) (\<lambda>cur.
       bindF (access p (field_type patch)) (\<lambda>q.
         to_buffer p (value_bits (apply_patch cur patch)) q))"

section \<open>Auxiliary notions for the results\<close>

text \<open>The table after the entries of a binding list have been stored in order.\<close>

definition set_slots ::
  "(basic_match_fields \<Rightarrow> ptr option) \<Rightarrow> (basic_match_fields \<times> ptr option) list
     \<Rightarrow> (basic_match_fields \<Rightarrow> ptr option)" where
  "set_slots t bl = fold (\<lambda>(f, q) t'. t'(f := q)) bl t"

text \<open>The big-endian 16-bit value held at an offset of a byte sequence.\<close>

definition u16_at :: "byte list \<Rightarrow> nat \<Rightarrow> 16 word" where
  "u16_at bs k = be16 (bs ! k) (bs ! (k + 1))"

text \<open>The fields each layer binds, together with those of the layers below it.\<close>

definition dhcp_fields :: "basic_match_fields set" where
  "dhcp_fields = {DHCP_OP, DHCP_XID, DHCP_CIADDR, DHCP_YIADDR, DHCP_CHADDR}"

definition l4_fields :: "basic_match_fields set" where
  "l4_fields = {TCP_SRC, TCP_DST, UDP_SRC, UDP_DST} \<union> dhcp_fields"

definition l3_fields :: "basic_match_fields set" where
  "l3_fields = {IP_PROTO, IPV4_SRC, IPV4_DST, ARP_OP, ARP_SHA, ARP_THA, ARP_SPA, ARP_TPA}
                 \<union> l4_fields"

text \<open>
  \<open>same_but S p p'\<close>: \<open>p'\<close> has the frame, the port, the VLAN flag and every slot outside
  \<open>S\<close> as \<open>p\<close> has them.  \<open>ends_well S p r\<close>: the outcome \<open>r\<close> of a parsing step started
  in \<open>p\<close> is such a state, or the step stopped at a read past the end of the frame;
  no assertion failed.
\<close>

definition same_but :: "basic_match_fields set \<Rightarrow> packet_parser \<Rightarrow> packet_parser \<Rightarrow> bool" where
  "same_but S p p' \<longleftrightarrow>
     data p' = data p \<and> in_port p' = in_port p \<and> vlan_tagged p' = vlan_tagged p
     \<and> (\<forall>f. f \<notin> S \<longrightarrow> bindings p' f = bindings p f)"

definition ends_well ::
  "basic_match_fields set \<Rightarrow> packet_parser \<Rightarrow> fault + packet_parser \<Rightarrow> bool" where
  "ends_well S p r =
     (case r of
        Inl e \<Rightarrow> (\<exists>k. length (data p) \<le> k \<and> e = OutOfBounds (PacketData k))
      | Inr p' \<Rightarrow> same_but S p p')"

definition reads_ok :: "packet_parser \<Rightarrow> fault + 'a \<Rightarrow> bool" where
  "reads_ok p r \<longleftrightarrow>
     (\<exists>k. length (data p) \<le> k \<and> r = Inl (OutOfBounds (PacketData k))) \<or> (\<exists>x. r = Inr x)"

text \<open>
  A list of options, each a code and its value bytes, as it lies in the options region
  (code, length, value), and the table a scan of it from offset \<open>k\<close> yields: every
  option in turn is stored under its code, replacing an earlier entry for that code.
\<close>

fun encode_opts :: "(byte \<times> byte list) list \<Rightarrow> byte list" where
  "encode_opts [] = []"
| "encode_opts ((c, v) # os) = c # word_of_nat (length v) # v @ encode_opts os"

fun scanned ::
  "nat \<Rightarrow> (byte \<times> byte list) list \<Rightarrow> (byte \<rightharpoonup> dhcp_opt) \<Rightarrow> (byte \<rightharpoonup> dhcp_opt)" where
  "scanned k [] t = t"
| "scanned k ((c, v) # os) t =
     scanned (k + 2 + length v) os
       (t(c \<mapsto> \<lparr>opt_code = c, opt_len = word_of_nat (length v), opt_data = Some (k + 2)\<rparr>))"

text \<open>
  The parser as the constructor leaves it before \<open>parse_l2\<close> runs, and as each branch
  of \<open>parse_l2\<close> hands it to \<open>parse_l3\<close>.
\<close>

definition constructed :: "byte list \<Rightarrow> 32 word \<Rightarrow> packet_parser" where
  "constructed bs port =
     \<lparr>data = bs, in_port = be32 port,
      bindings = (\<lambda>f. None)(IN_PORT := Some InPortMember),
      vlan_tagged = None, dhcp_options = Map.empty\<rparr>"

definition l2_untagged :: "packet_parser \<Rightarrow> packet_parser" where
  "l2_untagged p =
     p\<lparr>vlan_tagged := Some False,
       bindings := (bindings p)
         (ETH_TYPE := Some (PacketData 12), ETH_SRC := Some (PacketData 6),
          ETH_DST := Some (PacketData 0), VLAN_VID := None)\<rparr>"

definition l2_tagged :: "packet_parser \<Rightarrow> packet_parser" where
  "l2_tagged p =
     p\<lparr>vlan_tagged := Some True,
       bindings := (bindings p)
         (ETH_TYPE := Some (PacketData 16), ETH_SRC := Some (PacketData 6),
          ETH_DST := Some (PacketData 0), VLAN_VID := Some (PacketData 14))\<rparr>"

text \<open>
  Modelled from the spec: the registry of field types is not part of the source.  The
  spec binds the VLAN id to the 16-bit TCI; the Ethernet type and the ARP operation
  are 16-bit fields of their headers, an IPv4 address is four bytes.
\<close>

definition eth_type_t :: oxm_type where
  "eth_type_t = \<lparr>type_ns = OPENFLOW_BASIC, type_id = ETH_TYPE, type_nbits = 16\<rparr>"

definition vlan_vid_t :: oxm_type where
  "vlan_vid_t = \<lparr>type_ns = OPENFLOW_BASIC, type_id = VLAN_VID, type_nbits = 16\<rparr>"

definition arp_op_t :: oxm_type where
  "arp_op_t = \<lparr>type_ns = OPENFLOW_BASIC, type_id = ARP_OP, type_nbits = 16\<rparr>"

definition ipv4_dst_t :: oxm_type where
  "ipv4_dst_t = \<lparr>type_ns = OPENFLOW_BASIC, type_id = IPV4_DST, type_nbits = 32\<rparr>"

section \<open>Sample inputs\<close>

text \<open>
  A tagged frame with TCI \<open>E005\<close> (priority 7, VLAN 5) and the parser built from it, a
  patch that sets the VLAN id to 10, an untagged frame, and an ARP request whose
  hardware type is 2.
\<close>

definition vlan_frame :: "byte list" where
  "vlan_frame = [0x02, 0, 0, 0, 0, 0x01, 0x02, 0, 0, 0, 0, 0x02, 0x81, 0x00, 0xE0, 0x05, 0x86, 0xDD]"

definition vlan_parser :: packet_parser where
  "vlan_parser =
     \<lparr>data = vlan_frame, in_port = [0, 0, 0, 1],
      bindings = (\<lambda>f. None)
        (IN_PORT := Some InPortMember, ETH_TYPE := Some (PacketData 16),
         ETH_SRC := Some (PacketData 6), ETH_DST := Some (PacketData 0),
         VLAN_VID := Some (PacketData 14)),
      vlan_tagged = Some True, dhcp_options = Map.empty\<rparr>"

definition vid_patch :: oxm_field where
  "vid_patch =
     \<lparr>field_type = vlan_vid_t,
      value_bits = [False, False, False, False, False, False, False, False,
                    False, False, False, False, True, False, True, False],
      field_mask = replicate 4 False @ replicate 12 True\<rparr>"

definition plain_frame :: "byte list" where
  "plain_frame = [0x02, 0, 0, 0, 0, 0x01, 0x02, 0, 0, 0, 0, 0x02, 0x86, 0xDD]"

definition arp_frame :: "byte list" where
  "arp_frame =
     [0xFF, 0xFF, 0xFF, 0xFF, 0xFF, 0xFF, 0x02, 0, 0, 0, 0, 0x02, 0x08, 0x06,
      0x00, 0x02, 0x08, 0x00, 6, 4, 0, 1,
      0x02, 0, 0, 0, 0, 0x02, 10, 0, 0, 1,
      0, 0, 0, 0, 0, 0, 10, 0, 0, 2]"

text \<open>
  A tagged frame of 34 bytes with inner type \<open>0800\<close>, the parser the constructor
  returns for it, with the IPv4 destination address bound at offset 34, and a patch of
  that address.
\<close>

definition short_tagged_frame :: "byte list" where
  "short_tagged_frame =
     [0x02, 0, 0, 0, 0, 0x01, 0x02, 0, 0, 0, 0, 0x02, 0x81, 0x00, 0xE0, 0x05, 0x08, 0x00,
      0x45, 0, 0, 20, 0, 0, 0, 0, 64, 0x06, 0, 0, 10, 0, 0, 1]"

definition short_tagged_parser :: packet_parser where
  "short_tagged_parser =
     \<lparr>data = short_tagged_frame, in_port = [0, 0, 0, 1],
      bindings = (\<lambda>f. None)
        (IN_PORT := Some InPortMember, ETH_TYPE := Some (PacketData 16),
         ETH_SRC := Some (PacketData 6), ETH_DST := Some (PacketData 0),
         VLAN_VID := Some (PacketData 14), IP_PROTO := Some (PacketData 27),
         IPV4_SRC := Some (PacketData 30), IPV4_DST := Some (PacketData 34)),
      vlan_tagged = Some True, dhcp_options = Map.empty\<rparr>"

definition dst_patch :: oxm_field where
  "dst_patch =
     \<lparr>field_type = ipv4_dst_t, value_bits = replicate 32 False,
      field_mask = replicate 32 True\<rparr>"

text \<open>
  The datagram of the spec's example: from port 68 to port 67, the 34-byte fixed header,
  the cookie, option 53 of length 1 with value 2, and the terminator.
\<close>

definition dhcp_frame :: "byte list" where
  "dhcp_frame =
     [0xFF, 0xFF, 0xFF, 0xFF, 0xFF, 0xFF, 0x02, 0, 0, 0, 0, 0x02, 0x08, 0x00,
      0x45, 0, 0, 0x43, 0, 0, 0, 0, 64, 0x11, 0, 0, 0, 0, 0, 0, 0xFF, 0xFF, 0xFF, 0xFF,
      0, 68, 0, 67, 0, 0x2F, 0, 0,
      1, 1, 6, 0, 0x12, 0x34, 0x56, 0x78, 0, 0, 0, 0, 0, 0, 0, 0, 0, 0, 0, 0,
      0, 0, 0, 0, 0, 0, 0, 0, 0x02, 0, 0, 0, 0, 0x02,
      0x63, 0x82, 0x53, 0x63, 53, 1, 0x02, 0xFF]"

section \<open>Results\<close>

lemma bindF_Inr [simp]: "bindF (Inr x) f = f x"
  by (simp add: bindF_def)

lemma bindF_Inl [simp]: "bindF (Inl e) f = Inl e"
  by (simp add: bindF_def)

text \<open>
  C5.  For a buffer shorter than 14 bytes the constructor returns, and in the table it
  leaves exactly the slot of \<open>IN_PORT\<close> bound (to the member \<open>in_port\<close>); every other
  slot is null.
\<close>

theorem short_buffer_only_in_port:
  assumes "length bs < 14"
  shows "\<exists>p. PacketParser \<lparr>pi_data = Some bs, pi_in_port = port\<rparr> = Inr p
           \<and> bindings p IN_PORT = Some InPortMember
           \<and> (\<forall>f. f \<noteq> IN_PORT \<longrightarrow> bindings p f = None)
           \<and> dhcp_options p = Map.empty"
  using assms by (simp add: PacketParser_def init_parser_def parse_l2_def)

theorem short_buffer_only_in_port_witness:
  "length [1, 2, 3 :: byte] < 14 \<and>
   (\<exists>p. PacketParser \<lparr>pi_data = Some [1, 2, 3], pi_in_port = 7\<rparr> = Inr p
         \<and> bindings p IN_PORT = Some InPortMember
         \<and> (\<forall>f. f \<noteq> IN_PORT \<longrightarrow> bindings p f = None)
         \<and> dhcp_options p = Map.empty)"
  using short_buffer_only_in_port [of "[1, 2, 3]" 7] by simp

lemma set_slots_Nil [simp]: "set_slots t [] = t"
  by (simp add: set_slots_def)

lemma set_slots_Cons [simp]: "set_slots t ((f, q) # bl) = set_slots (t(f := q)) bl"
  by (simp add: set_slots_def)

lemma bind_fields_ok:
  "(\<forall>i<length bl. set_slots (bindings p) (take i bl) (fst (bl ! i)) = None)
     \<Longrightarrow> bind_fields p bl = Inr (p\<lparr>bindings := set_slots (bindings p) bl\<rparr>)"
proof (induction bl arbitrary: p)
  case Nil
  then show ?case by simp
next
  case (Cons e bl)
  obtain f q where e: "e = (f, q)" by (cases e)
  let ?p' = "p\<lparr>bindings := (bindings p)(f := q)\<rparr>"
  from Cons.prems have free: "bindings p f = None"
    by (auto simp: e dest: spec [of _ 0])
  have "\<forall>i<length bl. set_slots (bindings ?p') (take i bl) (fst (bl ! i)) = None"
  proof (intro allI impI)
    fix i assume "i < length bl"
    with Cons.prems have "set_slots (bindings p) (take (Suc i) (e # bl)) (fst ((e # bl) ! Suc i)) = None"
      by (metis Suc_less_eq length_Cons)
    then show "set_slots (bindings ?p') (take i bl) (fst (bl ! i)) = None"
      by (simp add: e)
  qed
  then have ih: "bind_fields ?p' bl = Inr (?p'\<lparr>bindings := set_slots (bindings ?p') bl\<rparr>)"
    by (rule Cons.IH)
  have step: "bind_fields p (e # bl) = bind_fields ?p' bl"
    using free by (simp add: e)
  have upd: "?p'\<lparr>bindings := set_slots (bindings ?p') bl\<rparr>
               = p\<lparr>bindings := set_slots (bindings p) (e # bl)\<rparr>"
    by (simp add: e)
  show ?case by (simp only: step ih upd)
qed

lemma bind_fields_fails:
  "i < length bl \<Longrightarrow> set_slots (bindings p) (take i bl) (fst (bl ! i)) \<noteq> None
     \<Longrightarrow> \<exists>f. bind_fields p bl = Inl (AlreadyBound f)"
proof (induction bl arbitrary: p i)
  case Nil
  then show ?case by simp
next
  case (Cons e bl)
  obtain f q where e: "e = (f, q)" by (cases e)
  show ?case
  proof (cases "bindings p f = None")
    case False
    then show ?thesis by (simp add: e)
  next
    case True
    with Cons.prems obtain j where j: "i = Suc j" 
      by (cases i) (auto simp: e)
    let ?p' = "p\<lparr>bindings := (bindings p)(f := q)\<rparr>"
    from Cons.prems j have "j < length bl" 
      and "set_slots (bindings ?p') (take j bl) (fst (bl ! j)) \<noteq> None"
      by (simp_all add: e)
    from Cons.IH [OF this] True show ?thesis by (simp add: e)
  qed
qed

lemma rebind_ok:
  "(\<forall>i<length bl. set_slots (bindings p) (take i bl) (fst (bl ! i)) \<noteq> None)
     \<Longrightarrow> rebind p bl = Inr (p\<lparr>bindings := set_slots (bindings p) bl\<rparr>)"
proof (induction bl arbitrary: p)
  case Nil
  then show ?case by simp
next
  case (Cons e bl)
  obtain f q where e: "e = (f, q)" by (cases e)
  let ?p' = "p\<lparr>bindings := (bindings p)(f := q)\<rparr>"
  from Cons.prems have free: "bindings p f \<noteq> None"
    by (auto simp: e dest: spec [of _ 0])
  have "\<forall>i<length bl. set_slots (bindings ?p') (take i bl) (fst (bl ! i)) \<noteq> None"
  proof (intro allI impI)
    fix i assume "i < length bl"
    with Cons.prems have "set_slots (bindings p) (take (Suc i) (e # bl)) (fst ((e # bl) ! Suc i)) \<noteq> None"
      by (metis Suc_less_eq length_Cons)
    then show "set_slots (bindings ?p') (take i bl) (fst (bl ! i)) \<noteq> None"
      by (simp add: e)
  qed
  then have ih: "rebind ?p' bl = Inr (?p'\<lparr>bindings := set_slots (bindings ?p') bl\<rparr>)"
    by (rule Cons.IH)
  have step: "rebind p (e # bl) = rebind ?p' bl"
    using free by (auto simp add: e)
  have upd: "?p'\<lparr>bindings := set_slots (bindings ?p') bl\<rparr>
               = p\<lparr>bindings := set_slots (bindings p) (e # bl)\<rparr>"
    by (simp add: e)
  show ?case by (simp only: step ih upd)
qed

lemma rebind_fails:
  "i < length bl \<Longrightarrow> set_slots (bindings p) (take i bl) (fst (bl ! i)) = None
     \<Longrightarrow> \<exists>f. rebind p bl = Inl (NotBound f)"
proof (induction bl arbitrary: p i)
  case Nil
  then show ?case by simp
next
  case (Cons e bl)
  obtain f q where e: "e = (f, q)" by (cases e)
  show ?case
  proof (cases "bindings p f = None")
    case True
    then show ?thesis by (simp add: e)
  next
    case False
    with Cons.prems obtain j where j: "i = Suc j" 
      by (cases i) (auto simp: e)
    let ?p' = "p\<lparr>bindings := (bindings p)(f := q)\<rparr>"
    from Cons.prems j have "j < length bl" 
      and "set_slots (bindings ?p') (take j bl) (fst (bl ! j)) = None"
      by (simp_all add: e)
    from Cons.IH [OF this] False show ?thesis by (simp add: e)
  qed
qed

lemma bind_fields_bound_at_call:
  "(f, q) \<in> set bl \<Longrightarrow> bindings p f \<noteq> None \<Longrightarrow> \<exists>g. bind_fields p bl = Inl (AlreadyBound g)"
proof (induction bl arbitrary: p)
  case Nil
  then show ?case by simp
next
  case (Cons e bl)
  obtain g r where e: "e = (g, r)" by (cases e)
  show ?case
  proof (cases "bindings p g = None")
    case False
    then show ?thesis by (simp add: e)
  next
    case True
    with Cons.prems have "g \<noteq> f" "(f, q) \<in> set bl" by (auto simp: e)
    with Cons.IH [of "p\<lparr>bindings := (bindings p)(g := r)\<rparr>"] Cons.prems True
    show ?thesis by (simp add: e)
  qed
qed

lemma rebind_unbound_at_call:
  "(f, q) \<in> set bl \<Longrightarrow> bindings p f = None \<Longrightarrow> \<exists>g. rebind p bl = Inl (NotBound g)"
proof (induction bl arbitrary: p)
  case Nil
  then show ?case by simp
next
  case (Cons e bl)
  obtain g r where e: "e = (g, r)" by (cases e)
  show ?case
  proof (cases "bindings p g = None")
    case True
    then show ?thesis by (simp add: e)
  next
    case False
    with Cons.prems have "g \<noteq> f" "(f, q) \<in> set bl" by (auto simp: e)
    with Cons.IH [of "p\<lparr>bindings := (bindings p)(g := r)\<rparr>"] Cons.prems False
    show ?thesis by (simp add: e)
  qed
qed


text \<open>
  C8.  \<open>bind\<close> fails on an entry whose slot is bound when the entry is reached, that is
  in the table as the entries before it have left it, and so on every list with an
  entry whose slot is bound at the call; when no entry finds its slot bound it returns
  with every listed slot set to its location and nothing else changed.  \<open>rebind\<close> is
  the mirror image: it fails on an entry that finds its slot null, and otherwise
  overwrites the listed slots.
\<close>

theorem bind_rebind_contract:
  "(i < length bl \<and> set_slots (bindings p) (take i bl) (fst (bl ! i)) \<noteq> None
      \<longrightarrow> (\<exists>g. bind_fields p bl = Inl (AlreadyBound g)))
   \<and> ((f, q) \<in> set bl \<and> bindings p f \<noteq> None
      \<longrightarrow> (\<exists>g. bind_fields p bl = Inl (AlreadyBound g)))
   \<and> ((\<forall>j<length bl. set_slots (bindings p) (take j bl) (fst (bl ! j)) = None)
      \<longrightarrow> bind_fields p bl = Inr (p\<lparr>bindings := set_slots (bindings p) bl\<rparr>))
   \<and> (i < length bl \<and> set_slots (bindings p) (take i bl) (fst (bl ! i)) = None
      \<longrightarrow> (\<exists>g. rebind p bl = Inl (NotBound g)))
   \<and> ((f, q) \<in> set bl \<and> bindings p f = None
      \<longrightarrow> (\<exists>g. rebind p bl = Inl (NotBound g)))
   \<and> ((\<forall>j<length bl. set_slots (bindings p) (take j bl) (fst (bl ! j)) \<noteq> None)
      \<longrightarrow> rebind p bl = Inr (p\<lparr>bindings := set_slots (bindings p) bl\<rparr>))"
  using bind_fields_fails [of i bl p] bind_fields_bound_at_call [of f q bl p]
    bind_fields_ok [of bl p] rebind_fails [of i bl p] rebind_unbound_at_call [of f q bl p]
    rebind_ok [of bl p]
  by blast

subsection \<open>Bit strings and \<open>modify\<close>\<close>

lemma length_byte_bits [simp]: "length (byte_bits b) = 8"
  by (simp add: byte_bits_def)

lemma bits_byte_byte_bits [simp]: "bits_byte (byte_bits b) = b"
proof -
  have "horner_sum of_bool 2 (map (bit b) [0..<8]) = take_bit 8 b"
    by (rule horner_sum_bit_eq_take_bit)
  then show ?thesis
    by (simp add: bits_byte_def byte_bits_def take_bit_word_eq_self)
qed

lemma byte_bits_bits_byte: 
  assumes "length bs = 8" shows "byte_bits (bits_byte bs) = bs"
proof -
  have "map (bit (bits_byte bs)) [0..<8] = rev bs"
    using assms by (intro nth_equalityI) (simp_all add: bits_byte_def bit_horner_sum_bit_word_iff)
  then show ?thesis by (simp add: byte_bits_def)
qed

lemma byte_bits_inject: "byte_bits a = byte_bits b \<Longrightarrow> a = b"
  by (metis bits_byte_byte_bits)

lemma bits_of_Nil [simp]: "bits_of [] = []"
  by (simp add: bits_of_def)

lemma bits_of_Cons [simp]: "bits_of (b # m) = byte_bits b @ bits_of m"
  by (simp add: bits_of_def)

lemma length_bits_of [simp]: "length (bits_of m) = 8 * length m"
  by (induction m) simp_all

lemma eight_bits: 
  assumes "length bs = 8" 
  obtains b7 b6 b5 b4 b3 b2 b1 b0 where "bs = [b7, b6, b5, b4, b3, b2, b1, b0]"
  using assms by (auto simp: length_Suc_conv eval_nat_numeral)

lemma bytes_of_append8:
  assumes "length bs = 8" shows "bytes_of (bs @ cs) = bits_byte bs # bytes_of cs"
  using assms by (elim eight_bits) simp

lemma bytes_of_bits_of [simp]: "bytes_of (bits_of m) = m"
  by (induction m) (simp_all add: bytes_of_append8)

lemma bits_of_bytes_of_aux: "length bs = 8 * n \<Longrightarrow> bits_of (bytes_of bs) = bs"
proof (induction n arbitrary: bs)
  case 0
  then show ?case by simp
next
  case (Suc n)
  define hd8 where "hd8 = take 8 bs"
  define tl8 where "tl8 = drop 8 bs"
  have bs: "bs = hd8 @ tl8" by (simp add: hd8_def tl8_def)
  have l8: "length hd8 = 8" using Suc.prems by (simp add: hd8_def)
  have ln: "length tl8 = 8 * n" using Suc.prems by (simp add: tl8_def)
  show ?case
    by (simp add: bs bytes_of_append8 [OF l8] byte_bits_bits_byte [OF l8] Suc.IH [OF ln])
qed

lemma bits_of_bytes_of: "8 dvd length bs \<Longrightarrow> bits_of (bytes_of bs) = bs"
  by (auto elim!: dvdE intro: bits_of_bytes_of_aux)

lemma length_bytes_of: "8 dvd length bs \<Longrightarrow> length (bytes_of bs) = length bs div 8"
  by (metis bits_of_bytes_of length_bits_of nonzero_mult_div_cancel_left zero_neq_numeral)

lemma nth_bits_of: "j < length m \<Longrightarrow> i < 8 \<Longrightarrow> bits_of m ! (8 * j + i) = byte_bits (m ! j) ! i"
proof (induction m arbitrary: j)
  case Nil
  then show ?case by simp
next
  case (Cons b m)
  show ?case
  proof (cases j)
    case 0
    with Cons.prems show ?thesis by (simp add: nth_append)
  next
    case (Suc j')
    with Cons.prems have "bits_of m ! (8 * j' + i) = byte_bits (m ! j') ! i"
      by (intro Cons.IH) simp_all
    with Suc show ?thesis by (simp add: nth_append)
  qed
qed

lemma byte_eq_from_bits:
  assumes "j < length m" "length m' = length m"
    and "\<And>i. i < 8 \<Longrightarrow> bits_of m' ! (8 * j + i) = bits_of m ! (8 * j + i)"
  shows "m' ! j = m ! j"
proof -
  have "byte_bits (m' ! j) = byte_bits (m ! j)"
    using assms by (intro nth_equalityI) (simp_all add: nth_bits_of [symmetric])
  then show ?thesis by (rule byte_bits_inject)
qed

lemma map2_and_replicate: "length v = n \<Longrightarrow> map2 (\<and>) v (replicate n True) = v"
  by (intro nth_equalityI) simp_all


lemma cells_put_cells: "cells p q = (m, k) \<Longrightarrow> cells (put_cells p q m') q = (m', k)"
  by (cases q) auto

lemma put_cells_frame:
  "bindings (put_cells p q m') = bindings p"
  "vlan_tagged (put_cells p q m') = vlan_tagged p"
  "dhcp_options (put_cells p q m') = dhcp_options p"
  "q = InPortMember \<Longrightarrow> data (put_cells p q m') = data p"
  "q = PacketData k \<Longrightarrow> in_port (put_cells p q m') = in_port p"
  by (cases q; simp)+

lemma modify_result:
  assumes ns: "type_ns (field_type patch) = OPENFLOW_BASIC"
    and bound: "bindings p (type_id (field_type patch)) = Some q"
    and cells: "cells p q = (m, k)"
    and inside: "8 * k + type_nbits (field_type patch) \<le> 8 * length m"
    and lv: "length (value_bits patch) = type_nbits (field_type patch)"
    and lm: "length (field_mask patch) = type_nbits (field_type patch)"
  shows "modify p patch =
           Inr (put_cells p q (bytes_of
             (take (8 * k) (bits_of m)
              @ map2 (\<lambda>v (pv, pm). if pm then pv else v)
                  (take (type_nbits (field_type patch)) (drop (8 * k) (bits_of m)))
                  (zip (value_bits patch) (field_mask patch))
              @ drop (8 * k + type_nbits (field_type patch)) (bits_of m))))"
proof -
  let ?nb = "type_nbits (field_type patch)"
  let ?old = "take ?nb (drop (8 * k) (bits_of m))"
  have lold: "length ?old = ?nb" using inside by simp
  have acc: "access p (field_type patch) = Inr q"
    using ns bound by (simp add: access_def)
  have rd: "bits_from p ?nb q = Inr ?old"
    using cells inside by (simp add: bits_from_def)
  have ld: "load p (exact_mask (field_type patch))
              = Inr \<lparr>field_type = field_type patch, value_bits = ?old,
                     field_mask = replicate ?nb True\<rparr>"
    using lold by (simp add: load_def exact_mask_def acc rd value_and_mask_def map2_and_replicate)
  show ?thesis
    using cells inside lold lv lm
    by (simp add: modify_def ld acc apply_patch_def to_buffer_def)
qed


subsection \<open>What the layers leave unchanged\<close>

lemma same_but_refl [simp]: "same_but S p p"
  by (simp add: same_but_def)

lemma same_but_trans: "same_but S p p1 \<Longrightarrow> same_but T p1 p2 \<Longrightarrow> same_but (S \<union> T) p p2"
  by (simp add: same_but_def)

lemma same_but_mono: "S \<subseteq> T \<Longrightarrow> same_but S p p' \<Longrightarrow> same_but T p p'"
  by (auto simp: same_but_def)

lemma ends_well_Inr [simp]: "ends_well S p (Inr p') = same_but S p p'"
  by (simp add: ends_well_def)

lemma ends_well_mono: "S \<subseteq> T \<Longrightarrow> ends_well S p r \<Longrightarrow> ends_well T p r"
  by (auto simp: ends_well_def same_but_mono split: sum.splits)

lemma ends_well_trans:
  "same_but S p p1 \<Longrightarrow> ends_well T p1 r \<Longrightarrow> ends_well (S \<union> T) p r"
  by (auto simp: ends_well_def same_but_def split: sum.splits)

lemma ends_well_if:
  "(c \<Longrightarrow> ends_well S p a) \<Longrightarrow> (\<not> c \<Longrightarrow> ends_well S p b) \<Longrightarrow> ends_well S p (if c then a else b)"
  by simp

lemma ends_well_rd8:
  "(\<And>x. ends_well S p (g x)) \<Longrightarrow> ends_well S p (bindF (rd8 p k) g)"
  by (simp add: rd8_def) (simp add: ends_well_def)

lemma ends_well_rd16:
  "(\<And>x. ends_well S p (g x)) \<Longrightarrow> ends_well S p (bindF (rd16 p k) g)"
  unfolding rd16_def
  by (cases "rd8 p k"; cases "rd8 p (k + 1)")
     (auto simp: rd8_def ends_well_def split: if_splits)

lemma reads_ok_Inr [simp]: "reads_ok p (Inr x)"
  by (simp add: reads_ok_def)

lemma reads_ok_if: "reads_ok p a \<Longrightarrow> reads_ok p b \<Longrightarrow> reads_ok p (if c then a else b)"
  by simp

lemma reads_ok_rd8: "(\<And>x. reads_ok p (g x)) \<Longrightarrow> reads_ok p (bindF (rd8 p k) g)"
  by (simp add: rd8_def) (simp add: reads_ok_def)

lemma cookie_at_reads_ok: "reads_ok p (cookie_at p opts n i)"
  unfolding cookie_at_def
  by (intro reads_ok_rd8 reads_ok_if reads_ok_Inr)

lemma ends_well_cookie_at:
  "(\<And>x. ends_well S p (g x)) \<Longrightarrow> ends_well S p (bindF (cookie_at p opts n i) g)"
  using cookie_at_reads_ok [of p opts n i] by (auto simp: ends_well_def reads_ok_def)

lemma dhcp_scan_ends_well: "ends_well {} p (dhcp_scan p opts n i flag)"
proof (induction p opts n i flag rule: dhcp_scan.induct)
  case (1 p opts n i flag)
  show ?case
  proof (cases "i \<le> n")
    case False
    then show ?thesis by (simp add: dhcp_scan.simps [of p opts n i flag])
  next
    case le: True
    show ?thesis
    proof (cases flag)
      case True
      have step: "ends_well {} p (dhcp_scan (p\<lparr>dhcp_options := t\<rparr>) opts n j True)"
        if "ends_well {} (p\<lparr>dhcp_options := t\<rparr>) (dhcp_scan (p\<lparr>dhcp_options := t\<rparr>) opts n j True)"
        for t j
        using ends_well_trans [of "{}" p "p\<lparr>dhcp_options := t\<rparr>" "{}", OF _ that]
        by (simp add: same_but_def)
      have "ends_well {} p
              (bindF (rd8 p (opts + i)) (\<lambda>c.
                 if c = 0xFF then Inr p
                 else bindF (rd8 p (opts + i + 1)) (\<lambda>l.
                   dhcp_scan
                     (p\<lparr>dhcp_options := (dhcp_options p)
                          (c \<mapsto> \<lparr>opt_code = c, opt_len = l, opt_data = Some (opts + i + 2)\<rparr>)\<rparr>)
                     opts n (i + (unat l + 1) + 1) True)))"
      proof (intro ends_well_rd8 ends_well_if)
        show "ends_well {} p (Inr p)" by simp
      next
        fix c l :: byte assume "c \<noteq> 0xFF"
        from "1.IH"(1) [OF le True this]
        show "ends_well {} p
                (dhcp_scan
                     (p\<lparr>dhcp_options := (dhcp_options p)
                          (c \<mapsto> \<lparr>opt_code = c, opt_len = l, opt_data = Some (opts + i + 2)\<rparr>)\<rparr>)
                     opts n (i + (unat l + 1) + 1) True)"
          by (rule step)
      qed
      then show ?thesis
        using le True by (subst dhcp_scan.simps) simp
    next
      case False
      have "ends_well {} p
              (bindF (cookie_at p opts n i) (\<lambda>found.
                 if found then dhcp_scan p opts n (i + 3 + 1) True
                 else dhcp_scan p opts n (i + 1) False))"
      proof (intro ends_well_cookie_at ends_well_if)
        fix found :: bool assume found
        with "1.IH"(2) [OF le False] show "ends_well {} p (dhcp_scan p opts n (i + 3 + 1) True)"
          by simp
      next
        fix found :: bool assume "\<not> found"
        with "1.IH"(3) [OF le False] show "ends_well {} p (dhcp_scan p opts n (i + 1) False)"
          by simp
      qed
      then show ?thesis
        using le False by (subst dhcp_scan.simps) simp
    qed
  qed
qed


lemma parse_dhcp_ends_well:
  assumes "\<forall>f\<in>dhcp_fields. bindings p f = None"
  shows "ends_well dhcp_fields p (parse_dhcp p d n)"
proof (cases "34 \<le> n")
  case False
  then show ?thesis by (simp add: parse_dhcp_def)
next
  case True
  define p1 where "p1 = p\<lparr>bindings := (bindings p)
     (DHCP_OP := Some (PacketData d), DHCP_XID := Some (PacketData (d + 4)),
      DHCP_CIADDR := Some (PacketData (d + 12)), DHCP_YIADDR := Some (PacketData (d + 16)),
      DHCP_CHADDR := Some (PacketData (d + 28)))\<rparr>"
  have b: "bind_fields p
                 [(DHCP_OP, Some (PacketData d)),
                  (DHCP_XID, Some (PacketData (d + 4))),
                  (DHCP_CIADDR, Some (PacketData (d + 12))),
                  (DHCP_YIADDR, Some (PacketData (d + 16))),
                  (DHCP_CHADDR, Some (PacketData (d + 28)))] = Inr p1"
    using assms by (simp add: dhcp_fields_def p1_def)
  have sb: "same_but dhcp_fields p p1"
    by (simp add: same_but_def p1_def dhcp_fields_def)
  have "ends_well (dhcp_fields \<union> {}) p (dhcp_scan p1 (d + 34) (n - 34) 0 False)"
    using sb dhcp_scan_ends_well by (rule ends_well_trans)
  then show ?thesis
    unfolding parse_dhcp_def b using True by simp
qed

lemma parse_l4_ends_well:
  assumes "\<forall>f\<in>l4_fields. bindings p f = None"
  shows "ends_well l4_fields p (parse_l4 p protocol d n)"
proof -
  have "(protocol = 0x06 \<and> 20 \<le> n) \<or> (protocol = 0x11 \<and> 8 \<le> n)
          \<or> parse_l4 p protocol d n = Inr p"
    by (simp add: parse_l4_def)
  then consider (tcp) "protocol = 0x06" "20 \<le> n" | (udp) "protocol = 0x11" "8 \<le> n"
    | (other) "parse_l4 p protocol d n = Inr p"
    by blast
  then show ?thesis
  proof cases
    case tcp
    then show ?thesis
      using assms by (simp add: parse_l4_def l4_fields_def same_but_def)
  next
    case other
    then show ?thesis by simp
  next
    case udp
    define p1 where "p1 = p\<lparr>bindings := (bindings p)
       (UDP_SRC := Some (PacketData d), UDP_DST := Some (PacketData (d + 2)))\<rparr>"
    have b: "bind_fields p
               [(UDP_SRC, Some (PacketData d)), (UDP_DST, Some (PacketData (d + 2)))] = Inr p1"
      using assms by (simp add: l4_fields_def p1_def)
    have sb: "same_but {UDP_SRC, UDP_DST} p p1"
      by (simp add: same_but_def p1_def)
    have free: "\<forall>f\<in>dhcp_fields. bindings p1 f = None"
      using assms by (auto simp: l4_fields_def dhcp_fields_def p1_def)
    have "ends_well dhcp_fields p1
            (if n > 8 then
                 bindF (rd16 p1 d) (\<lambda>src.
                   if src = 68 then
                     bindF (rd16 p1 (d + 2)) (\<lambda>dst.
                       if dst = 67 then parse_dhcp p1 (d + 8) (n - 8) else Inr p1)
                   else Inr p1)
               else Inr p1)"
      by (intro ends_well_if ends_well_rd16 parse_dhcp_ends_well free) simp_all
    with sb have "ends_well ({UDP_SRC, UDP_DST} \<union> dhcp_fields) p
            (if n > 8 then
                 bindF (rd16 p1 d) (\<lambda>src.
                   if src = 68 then
                     bindF (rd16 p1 (d + 2)) (\<lambda>dst.
                       if dst = 67 then parse_dhcp p1 (d + 8) (n - 8) else Inr p1)
                   else Inr p1)
               else Inr p1)"
      by (rule ends_well_trans)
    then have "ends_well l4_fields p
            (if n > 8 then
                 bindF (rd16 p1 d) (\<lambda>src.
                   if src = 68 then
                     bindF (rd16 p1 (d + 2)) (\<lambda>dst.
                       if dst = 67 then parse_dhcp p1 (d + 8) (n - 8) else Inr p1)
                   else Inr p1)
               else Inr p1)"
      by (rule ends_well_mono [rotated]) (auto simp: l4_fields_def)
    then show ?thesis
      unfolding parse_l4_def b using udp by simp
  qed
qed

lemma parse_l3_ends_well:
  assumes "\<forall>f\<in>l3_fields. bindings p f = None"
  shows "ends_well l3_fields p (parse_l3 p eth_type d n)"
proof -
  have "(eth_type = 0x0800 \<and> 20 \<le> n) \<or> (eth_type = 0x0806 \<and> 28 \<le> n)
          \<or> parse_l3 p eth_type d n = Inr p"
    by (simp add: parse_l3_def)
  then consider (ipv4) "eth_type = 0x0800" "20 \<le> n" | (arp) "eth_type = 0x0806" "28 \<le> n"
    | (other) "parse_l3 p eth_type d n = Inr p"
    by blast
  then show ?thesis
  proof cases
    case other
    then show ?thesis by simp
  next
    case arp
    have "ends_well l3_fields p
           (bindF (rd16 p d) (\<lambda>htype.
             if htype \<noteq> 1 then Inr p
             else bindF (rd16 p (d + 2)) (\<lambda>ptype.
               if ptype \<noteq> 0x0800 then Inr p
               else bindF (rd8 p (d + 4)) (\<lambda>hlen.
                 if hlen \<noteq> 6 then Inr p
                 else bindF (rd8 p (d + 5)) (\<lambda>plen.
                   if plen \<noteq> 4 then Inr p
                   else bind_fields p
                     [(ARP_OP, Some (PacketData (d + 6))),
                      (ARP_SHA, Some (PacketData (d + 8))),
                      (ARP_THA, Some (PacketData (d + 18))),
                      (ARP_SPA, Some (PacketData (d + 14))),
                      (ARP_TPA, Some (PacketData (d + 24)))])))))"
      using assms
      by (intro ends_well_if ends_well_rd16 ends_well_rd8)
         (simp_all add: l3_fields_def same_but_def)
    then show ?thesis
      using arp by (simp add: parse_l3_def)
  next
    case ipv4
    define p1 where "p1 = p\<lparr>bindings := (bindings p)
       (IP_PROTO := Some (PacketData (d + 9)), IPV4_SRC := Some (PacketData (d + 12)),
        IPV4_DST := Some (PacketData (d + 16)))\<rparr>"
    have b: "bind_fields p
                    [(IP_PROTO, Some (PacketData (d + 9))),
                     (IPV4_SRC, Some (PacketData (d + 12))),
                     (IPV4_DST, Some (PacketData (d + 16)))] = Inr p1"
      using assms by (simp add: l3_fields_def p1_def)
    have sb: "same_but {IP_PROTO, IPV4_SRC, IPV4_DST} p p1"
      by (simp add: same_but_def p1_def)
    have free: "\<forall>f\<in>l4_fields. bindings p1 f = None"
      using assms by (auto simp: l3_fields_def l4_fields_def dhcp_fields_def p1_def)
    let ?rest = "bindF (rd8 p1 d) (\<lambda>b.
                 if n > header_length b then
                   bindF (rd8 p1 (d + 9)) (\<lambda>protocol.
                     parse_l4 p1 protocol (d + header_length b) (n - header_length b))
                 else Inr p1)"
    have "ends_well l4_fields p1 ?rest"
      by (intro ends_well_if ends_well_rd8 parse_l4_ends_well free) simp_all
    with sb have "ends_well ({IP_PROTO, IPV4_SRC, IPV4_DST} \<union> l4_fields) p ?rest"
      by (rule ends_well_trans)
    then have "ends_well l3_fields p ?rest"
      by (rule ends_well_mono [rotated]) (auto simp: l3_fields_def)
    then show ?thesis
      unfolding parse_l3_def b using ipv4 by simp
  qed
qed

subsection \<open>The link layer and the loaded fields\<close>

lemma rd8_in: "k < length (data p) \<Longrightarrow> rd8 p k = Inr (data p ! k)"
  by (simp add: rd8_def)

lemma rd16_in: "k + 1 < length (data p) \<Longrightarrow> rd16 p k = Inr (u16_at (data p) k)"
  by (simp add: rd16_def rd8_def u16_at_def)

lemma PacketParser_constructed:
  "PacketParser \<lparr>pi_data = Some bs, pi_in_port = port\<rparr>
     = parse_l2 (constructed bs port) 0 (length bs)"
  by (simp add: PacketParser_def init_parser_def constructed_def)

lemma parse_l2_untagged:
  assumes "14 \<le> length (data p)" "u16_at (data p) 12 \<noteq> 0x8100"
    and "\<forall>f. f \<noteq> IN_PORT \<longrightarrow> bindings p f = None"
  shows "parse_l2 p 0 (length (data p))
           = parse_l3 (l2_untagged p) (u16_at (data p) 12) 14 (length (data p) - 14)"
proof -
  have b: "bind_fields (p\<lparr>vlan_tagged := Some False\<rparr>)
                     [(ETH_TYPE, Some (PacketData (0 + 12))),
                      (ETH_SRC, Some (PacketData (0 + 6))),
                      (ETH_DST, Some (PacketData 0)),
                      (VLAN_VID, None)] = Inr (l2_untagged p)"
    using assms(3) by (simp add: l2_untagged_def)
  have r: "rd16 p (0 + 12) = Inr (u16_at (data p) 12)"
    "rd16 (l2_untagged p) 12 = Inr (u16_at (data p) 12)"
    using assms(1) by (simp_all add: rd16_in l2_untagged_def)
  show ?thesis
    unfolding parse_l2_def b r using assms(1,2) by (simp add: r)
qed

lemma parse_l2_tagged:
  assumes "18 \<le> length (data p)" "u16_at (data p) 12 = 0x8100"
    and "\<forall>f. f \<noteq> IN_PORT \<longrightarrow> bindings p f = None"
  shows "parse_l2 p 0 (length (data p))
           = parse_l3 (l2_tagged p) (u16_at (data p) 16) 18 (length (data p) - 14)"
proof -
  have b: "bind_fields (p\<lparr>vlan_tagged := Some True\<rparr>)
                     [(ETH_TYPE, Some (PacketData (0 + 16))),
                      (ETH_SRC, Some (PacketData (0 + 6))),
                      (ETH_DST, Some (PacketData 0)),
                      (VLAN_VID, Some (PacketData (0 + 14)))] = Inr (l2_tagged p)"
    using assms(3) by (simp add: l2_tagged_def)
  have r: "rd16 p (0 + 12) = Inr (u16_at (data p) 12)"
    "rd16 (l2_tagged p) 16 = Inr (u16_at (data p) 16)"
    using assms(1) by (simp_all add: rd16_in l2_tagged_def)
  show ?thesis
    unfolding parse_l2_def b r using assms(1,2) by (simp add: r)
qed

lemma constructed_simps [simp]:
  "data (constructed bs port) = bs"
  "bindings (constructed bs port) f = (if f = IN_PORT then Some InPortMember else None)"
  by (simp_all add: constructed_def)

lemma l2_untagged_simps [simp]:
  "data (l2_untagged p) = data p"
  "vlan_tagged (l2_untagged p) = Some False"
  "bindings (l2_untagged p) VLAN_VID = None"
  "bindings (l2_untagged p) ETH_TYPE = Some (PacketData 12)"
  "f \<in> l3_fields \<Longrightarrow> bindings (l2_untagged p) f = bindings p f"
  by (auto simp: l2_untagged_def l3_fields_def l4_fields_def dhcp_fields_def)

lemma l2_tagged_simps [simp]:
  "data (l2_tagged p) = data p"
  "vlan_tagged (l2_tagged p) = Some True"
  "bindings (l2_tagged p) VLAN_VID = Some (PacketData 14)"
  "bindings (l2_tagged p) ETH_TYPE = Some (PacketData 16)"
  "f \<in> l3_fields \<Longrightarrow> bindings (l2_tagged p) f = bindings p f"
  by (auto simp: l2_tagged_def l3_fields_def l4_fields_def dhcp_fields_def)

lemma IN_PORT_notin_l3 [simp]: "IN_PORT \<notin> l3_fields" "VLAN_VID \<notin> l3_fields" "ETH_TYPE \<notin> l3_fields"
  by (simp_all add: l3_fields_def l4_fields_def dhcp_fields_def)

lemma PacketParser_untagged:
  assumes "14 \<le> length bs" "u16_at bs 12 \<noteq> 0x8100"
  shows "ends_well l3_fields (l2_untagged (constructed bs port))
           (PacketParser \<lparr>pi_data = Some bs, pi_in_port = port\<rparr>)"
proof -
  have "PacketParser \<lparr>pi_data = Some bs, pi_in_port = port\<rparr>
          = parse_l3 (l2_untagged (constructed bs port)) (u16_at bs 12) 14 (length bs - 14)"
    using parse_l2_untagged [of "constructed bs port"] assms
    by (simp add: PacketParser_constructed)
  moreover have "ends_well l3_fields (l2_untagged (constructed bs port))
     (parse_l3 (l2_untagged (constructed bs port)) (u16_at bs 12) 14 (length bs - 14))"
    by (rule parse_l3_ends_well) auto
  ultimately show ?thesis by simp
qed

lemma PacketParser_tagged:
  assumes "18 \<le> length bs" "u16_at bs 12 = 0x8100"
  shows "ends_well l3_fields (l2_tagged (constructed bs port))
           (PacketParser \<lparr>pi_data = Some bs, pi_in_port = port\<rparr>)"
proof -
  have "PacketParser \<lparr>pi_data = Some bs, pi_in_port = port\<rparr>
          = parse_l3 (l2_tagged (constructed bs port)) (u16_at bs 16) 18 (length bs - 14)"
    using parse_l2_tagged [of "constructed bs port"] assms
    by (simp add: PacketParser_constructed)
  moreover have "ends_well l3_fields (l2_tagged (constructed bs port))
     (parse_l3 (l2_tagged (constructed bs port)) (u16_at bs 16) 18 (length bs - 14))"
    by (rule parse_l3_ends_well) auto
  ultimately show ?thesis by simp
qed

lemma ends_well_cases:
  assumes "ends_well S p r"
  obtains (oob) k where "length (data p) \<le> k" "r = Inl (OutOfBounds (PacketData k))"
    | (ret) p' where "r = Inr p'" "same_but S p p'"
  using assms by (auto simp: ends_well_def split: sum.splits)

text \<open>
  C10.  For an untagged frame of at least 14 bytes the \<open>bind\<close> of the link layer
  succeeds and leaves the slot of \<open>VLAN_VID\<close> null, as \<open>bindings.fill(nullptr)\<close> left it.
  In the parser as \<open>parse_l2\<close> hands it to \<open>parse_l3\<close>, and in the parser the constructor
  returns, \<open>access\<close>, \<open>load\<close> and \<open>modify\<close> of the field fail with the assertion for an
  unbound field, as they do in a parser whose layers never ran.  No assertion fails
  during construction: it returns, or a layer below the link layer reads past the end
  of the frame.
\<close>

theorem untagged_vlan_vid_absent:
  assumes len: "14 \<le> length bs" and ut: "u16_at bs 12 \<noteq> 0x8100"
    and t: "type_id t = VLAN_VID" "type_ns t = OPENFLOW_BASIC"
    and m: "mask_type msk = t" and pt: "field_type patch = t"
  shows "bind_fields ((constructed bs port)\<lparr>vlan_tagged := Some False\<rparr>)
           [(ETH_TYPE, Some (PacketData 12)), (ETH_SRC, Some (PacketData 6)),
            (ETH_DST, Some (PacketData 0)), (VLAN_VID, None)]
           = Inr (l2_untagged (constructed bs port))
       \<and> PacketParser \<lparr>pi_data = Some bs, pi_in_port = port\<rparr>
           = parse_l3 (l2_untagged (constructed bs port)) (u16_at bs 12) 14 (length bs - 14)
       \<and> (\<forall>p. p = l2_untagged (constructed bs port)
                \<or> PacketParser \<lparr>pi_data = Some bs, pi_in_port = port\<rparr> = Inr p \<longrightarrow>
              bindings p VLAN_VID = None
              \<and> bindings p VLAN_VID
                  = bindings (init_parser \<lparr>pi_data = Some bs, pi_in_port = port\<rparr>) VLAN_VID
              \<and> access p t = Inl (UnsupportedField VLAN_VID)
              \<and> load p msk = Inl (UnsupportedField VLAN_VID)
              \<and> modify p patch = Inl (UnsupportedField VLAN_VID))
       \<and> access (init_parser \<lparr>pi_data = Some bs, pi_in_port = port\<rparr>) t
           = Inl (UnsupportedField VLAN_VID)
       \<and> ((\<exists>k. length bs \<le> k
              \<and> PacketParser \<lparr>pi_data = Some bs, pi_in_port = port\<rparr>
                  = Inl (OutOfBounds (PacketData k)))
          \<or> (\<exists>p. PacketParser \<lparr>pi_data = Some bs, pi_in_port = port\<rparr> = Inr p))"
proof -
  let ?pi = "\<lparr>pi_data = Some bs, pi_in_port = port\<rparr>"
  let ?c = "constructed bs port"
  have b: "bind_fields (?c\<lparr>vlan_tagged := Some False\<rparr>)
           [(ETH_TYPE, Some (PacketData 12)), (ETH_SRC, Some (PacketData 6)),
            (ETH_DST, Some (PacketData 0)), (VLAN_VID, None)] = Inr (l2_untagged ?c)"
    by (simp add: l2_untagged_def constructed_def)
  have run: "PacketParser ?pi = parse_l3 (l2_untagged ?c) (u16_at bs 12) 14 (length bs - 14)"
    using parse_l2_untagged [of ?c] len ut by (simp add: PacketParser_constructed)
  have fails: "access p t = Inl (UnsupportedField VLAN_VID)
              \<and> load p msk = Inl (UnsupportedField VLAN_VID)
              \<and> modify p patch = Inl (UnsupportedField VLAN_VID)"
    if "bindings p VLAN_VID = None" for p
    using that t m pt by (simp add: access_def load_def modify_def exact_mask_def)
  have vid: "bindings p VLAN_VID = None"
    if "p = l2_untagged ?c \<or> PacketParser ?pi = Inr p" for p
    using that
  proof
    assume "p = l2_untagged ?c"
    then show ?thesis by simp
  next
    assume r: "PacketParser ?pi = Inr p"
    from PacketParser_untagged [OF len ut, of port] show ?thesis
      by (cases rule: ends_well_cases) (use r in \<open>simp_all add: same_but_def\<close>)
  qed
  have init: "bindings (init_parser ?pi) VLAN_VID = None"
    by (simp add: init_parser_def)
  have ends: "(\<exists>k. length bs \<le> k \<and> PacketParser ?pi = Inl (OutOfBounds (PacketData k)))
          \<or> (\<exists>p. PacketParser ?pi = Inr p)"
    using PacketParser_untagged [OF len ut, of port]
    by (cases rule: ends_well_cases) auto
  from b run vid fails init ends show ?thesis
    by (simp add: fails [OF init])
qed


lemma bits_of_append: "bits_of (a @ b) = bits_of a @ bits_of b"
  by (simp add: bits_of_def)

lemma drop_bits_of: "drop (8 * k) (bits_of m) = bits_of (drop k m)"
proof (cases "k \<le> length m")
  case True
  have "bits_of m = bits_of (take k m) @ bits_of (drop k m)"
    by (simp flip: bits_of_append)
  then have "drop (8 * k) (bits_of m) = drop (8 * k) (bits_of (take k m) @ bits_of (drop k m))"
    by simp
  also have "\<dots> = bits_of (drop k m)"
    using True by simp
  finally show ?thesis .
next
  case False
  then show ?thesis by simp
qed

lemma take_bits_of: "take (8 * n) (bits_of m) = bits_of (take n m)"
proof (cases "n \<le> length m")
  case True
  have "bits_of m = bits_of (take n m) @ bits_of (drop n m)"
    by (simp flip: bits_of_append)
  then have "take (8 * n) (bits_of m) = take (8 * n) (bits_of (take n m) @ bits_of (drop n m))"
    by simp
  also have "\<dots> = bits_of (take n m)"
    using True by simp
  finally show ?thesis .
next
  case False
  then show ?thesis by simp
qed

lemma two_bytes_at: "k + 2 \<le> length m \<Longrightarrow> take 2 (drop k m) = [m ! k, m ! (k + 1)]"
  by (simp add: take_Suc_conv_app_nth numeral_2_eq_2)

lemma bits16_at:
  assumes "k + 2 \<le> length m"
  shows "take 16 (drop (8 * k) (bits_of m)) = bits_of [m ! k, m ! (k + 1)]"
proof -
  have "take 16 (drop (8 * k) (bits_of m)) = take (8 * 2) (bits_of (drop k m))"
    by (simp add: drop_bits_of)
  also have "\<dots> = bits_of (take 2 (drop k m))"
    by (rule take_bits_of)
  finally show ?thesis by (simp add: two_bytes_at [OF assms])
qed

lemma load16:
  assumes "type_ns t = OPENFLOW_BASIC" "type_nbits t = 16"
    and "bindings p (type_id t) = Some (PacketData k)" "k + 2 \<le> length (data p)"
  shows "load p \<lparr>mask_type = t, mask_bits = mb\<rparr>
           = Inr \<lparr>field_type = t,
                  value_bits = map2 (\<and>) (bits_of [data p ! k, data p ! (k + 1)]) mb,
                  field_mask = mb\<rparr>"
  using assms
  by (simp add: load_def access_def bits_from_def value_and_mask_def bits16_at)

lemma vid_mask: 
  assumes "length x = 16"
  shows "map2 (\<and>) x (replicate 4 False @ replicate 12 True) = replicate 4 False @ drop 4 x"
  using assms by (intro nth_equalityI) (auto simp: nth_append)

lemma tagged_loads:
  assumes "data p = bs" "18 \<le> length bs"
    and "bindings p ETH_TYPE = Some (PacketData 16)"
    and "bindings p VLAN_VID = Some (PacketData 14)"
  shows "load p \<lparr>mask_type = eth_type_t, mask_bits = mb\<rparr>
           = Inr \<lparr>field_type = eth_type_t,
                  value_bits = map2 (\<and>) (bits_of [bs ! 16, bs ! 17]) mb,
                  field_mask = mb\<rparr>"
    and "load p \<lparr>mask_type = vlan_vid_t, mask_bits = mb\<rparr>
           = Inr \<lparr>field_type = vlan_vid_t,
                  value_bits = map2 (\<and>) (bits_of [bs ! 14, bs ! 15]) mb,
                  field_mask = mb\<rparr>"
    and "load p \<lparr>mask_type = vlan_vid_t, mask_bits = replicate 4 False @ replicate 12 True\<rparr>
           = Inr \<lparr>field_type = vlan_vid_t,
                  value_bits = replicate 4 False @ drop 4 (bits_of [bs ! 14, bs ! 15]),
                  field_mask = replicate 4 False @ replicate 12 True\<rparr>"
proof -
  show l1: "load p \<lparr>mask_type = eth_type_t, mask_bits = mb\<rparr>
           = Inr \<lparr>field_type = eth_type_t,
                  value_bits = map2 (\<and>) (bits_of [bs ! 16, bs ! 17]) mb,
                  field_mask = mb\<rparr>"
    using load16 [of eth_type_t p 16 mb] assms by (simp add: eth_type_t_def)
  show l2: "load p \<lparr>mask_type = vlan_vid_t, mask_bits = mb\<rparr>
           = Inr \<lparr>field_type = vlan_vid_t,
                  value_bits = map2 (\<and>) (bits_of [bs ! 14, bs ! 15]) mb,
                  field_mask = mb\<rparr>" for mb
    using load16 [of vlan_vid_t p 14 mb] assms by (simp add: vlan_vid_t_def)
  show "load p \<lparr>mask_type = vlan_vid_t, mask_bits = replicate 4 False @ replicate 12 True\<rparr>
           = Inr \<lparr>field_type = vlan_vid_t,
                  value_bits = replicate 4 False @ drop 4 (bits_of [bs ! 14, bs ! 15]),
                  field_mask = replicate 4 False @ replicate 12 True\<rparr>"
    unfolding l2 by (simp add: vid_mask)
qed

lemma parse_l3_arp_bad:
  assumes "d + 6 \<le> length (data p)"
    and "u16_at (data p) d \<noteq> 1 \<or> u16_at (data p) (d + 2) \<noteq> 0x0800
          \<or> data p ! (d + 4) \<noteq> 6 \<or> data p ! (d + 5) \<noteq> 4"
  shows "parse_l3 p 0x0806 d n = Inr p"
proof -
  have r: "rd16 p d = Inr (u16_at (data p) d)" "rd16 p (d + 2) = Inr (u16_at (data p) (d + 2))"
    "rd8 p (d + 4) = Inr (data p ! (d + 4))" "rd8 p (d + 5) = Inr (data p ! (d + 5))"
    using assms(1) by (simp_all add: rd16_in rd8_in)
  show ?thesis
    unfolding parse_l3_def r using assms(2) by auto
qed

text \<open>
  C7.  A frame of at least 42 bytes whose Ethernet type, or whose inner type behind a
  VLAN tag, is \<open>0806\<close>, and whose ARP header has a hardware type other than 1, a
  protocol type other than \<open>0800\<close>, a hardware length other than 6 or a protocol length
  other than 4: the constructor returns, every ARP slot is null, and \<open>access\<close> and
  \<open>load\<close> of an ARP field fail with the assertion for an unbound field.
\<close>

theorem arp_header_rejected:
  assumes len: "42 \<le> length bs"
    and arp: "(u16_at bs 12 = 0x0806 \<and> d = 14)
              \<or> (u16_at bs 12 = 0x8100 \<and> u16_at bs 16 = 0x0806 \<and> d = 18)"
    and bad: "u16_at bs d \<noteq> 1 \<or> u16_at bs (d + 2) \<noteq> 0x0800
              \<or> bs ! (d + 4) \<noteq> 6 \<or> bs ! (d + 5) \<noteq> 4"
    and f: "f \<in> {ARP_OP, ARP_SHA, ARP_THA, ARP_SPA, ARP_TPA}"
    and t: "type_id t = f" "type_ns t = OPENFLOW_BASIC"
    and m: "mask_type msk = t"
  shows "\<exists>p. PacketParser \<lparr>pi_data = Some bs, pi_in_port = port\<rparr> = Inr p
           \<and> bindings p f = None
           \<and> access p t = Inl (UnsupportedField f)
           \<and> load p msk = Inl (UnsupportedField f)"
proof -
  let ?pi = "\<lparr>pi_data = Some bs, pi_in_port = port\<rparr>"
  let ?c = "constructed bs port"
  have fl3: "f \<in> l3_fields" "f \<noteq> IN_PORT"
    using f by (auto simp: l3_fields_def)
  from arp obtain p1 where run: "PacketParser ?pi = parse_l3 p1 0x0806 d (length bs - 14)"
    and p1: "data p1 = bs" "bindings p1 f = None"
  proof
    assume a: "u16_at bs 12 = 0x0806 \<and> d = 14"
    have "PacketParser ?pi = parse_l3 (l2_untagged ?c) 0x0806 d (length bs - 14)"
      using parse_l2_untagged [of ?c] len a by (simp add: PacketParser_constructed)
    moreover have "data (l2_untagged ?c) = bs" "bindings (l2_untagged ?c) f = None"
      using fl3 by simp_all
    ultimately show ?thesis by (rule that)
  next
    assume a: "u16_at bs 12 = 0x8100 \<and> u16_at bs 16 = 0x0806 \<and> d = 18"
    have "PacketParser ?pi = parse_l3 (l2_tagged ?c) 0x0806 d (length bs - 14)"
      using parse_l2_tagged [of ?c] len a by (simp add: PacketParser_constructed)
    moreover have "data (l2_tagged ?c) = bs" "bindings (l2_tagged ?c) f = None"
      using fl3 by simp_all
    ultimately show ?thesis by (rule that)
  qed
  have "d + 6 \<le> length (data p1)" using arp len p1 by auto
  then have "parse_l3 p1 0x0806 d (length bs - 14) = Inr p1"
    using bad p1 by (intro parse_l3_arp_bad) simp_all
  with run have res: "PacketParser ?pi = Inr p1" by simp
  have acc: "access p1 t = Inl (UnsupportedField f)"
    using p1 t by (simp add: access_def)
  then have "load p1 msk = Inl (UnsupportedField f)"
    using m by (simp add: load_def)
  with res p1 acc show ?thesis by blast
qed

text \<open>
  C4, as amended.  For a tagged frame of at least 18 bytes, in the parser as \<open>parse_l2\<close>
  hands it to \<open>parse_l3\<close> and in the parser the constructor returns, the VLAN flag is
  true, \<open>load\<close> of the Ethernet type gives the two bytes at offset 16 under the mask,
  and \<open>load\<close> of the VLAN id gives the whole 16-bit TCI under the mask: the 12-bit VLAN
  id under the mask \<open>0FFF\<close>.  For an untagged frame of at least 14 bytes the flag is
  false and the slot of the VLAN id is null.  In both cases no assertion fails during
  construction: it returns, or a layer below the link layer reads past the end of the
  frame.
\<close>

theorem vlan_flag_and_loaded_fields:
  "(18 \<le> length bs \<and> u16_at bs 12 = 0x8100 \<longrightarrow>
      PacketParser \<lparr>pi_data = Some bs, pi_in_port = port\<rparr>
        = parse_l3 (l2_tagged (constructed bs port)) (u16_at bs 16) 18 (length bs - 14)
      \<and> (\<forall>p. p = l2_tagged (constructed bs port)
               \<or> PacketParser \<lparr>pi_data = Some bs, pi_in_port = port\<rparr> = Inr p \<longrightarrow>
             vlanTagged p = Some True
             \<and> (\<forall>mb. load p \<lparr>mask_type = eth_type_t, mask_bits = mb\<rparr>
                   = Inr \<lparr>field_type = eth_type_t,
                          value_bits = map2 (\<and>) (bits_of [bs ! 16, bs ! 17]) mb,
                          field_mask = mb\<rparr>)
             \<and> (\<forall>mb. load p \<lparr>mask_type = vlan_vid_t, mask_bits = mb\<rparr>
                   = Inr \<lparr>field_type = vlan_vid_t,
                          value_bits = map2 (\<and>) (bits_of [bs ! 14, bs ! 15]) mb,
                          field_mask = mb\<rparr>)
             \<and> load p \<lparr>mask_type = vlan_vid_t,
                         mask_bits = replicate 4 False @ replicate 12 True\<rparr>
                   = Inr \<lparr>field_type = vlan_vid_t,
                          value_bits = replicate 4 False @ drop 4 (bits_of [bs ! 14, bs ! 15]),
                          field_mask = replicate 4 False @ replicate 12 True\<rparr>)
      \<and> ((\<exists>k. length bs \<le> k
             \<and> PacketParser \<lparr>pi_data = Some bs, pi_in_port = port\<rparr>
                 = Inl (OutOfBounds (PacketData k)))
         \<or> (\<exists>p. PacketParser \<lparr>pi_data = Some bs, pi_in_port = port\<rparr> = Inr p)))
   \<and> (14 \<le> length bs \<and> u16_at bs 12 \<noteq> 0x8100 \<longrightarrow>
      PacketParser \<lparr>pi_data = Some bs, pi_in_port = port\<rparr>
        = parse_l3 (l2_untagged (constructed bs port)) (u16_at bs 12) 14 (length bs - 14)
      \<and> (\<forall>p. p = l2_untagged (constructed bs port)
               \<or> PacketParser \<lparr>pi_data = Some bs, pi_in_port = port\<rparr> = Inr p \<longrightarrow>
             vlanTagged p = Some False \<and> bindings p VLAN_VID = None)
      \<and> ((\<exists>k. length bs \<le> k
             \<and> PacketParser \<lparr>pi_data = Some bs, pi_in_port = port\<rparr>
                 = Inl (OutOfBounds (PacketData k)))
         \<or> (\<exists>p. PacketParser \<lparr>pi_data = Some bs, pi_in_port = port\<rparr> = Inr p)))"
proof -
  let ?pi = "\<lparr>pi_data = Some bs, pi_in_port = port\<rparr>"
  let ?c = "constructed bs port"
  let ?ends = "(\<exists>k. length bs \<le> k \<and> PacketParser ?pi = Inl (OutOfBounds (PacketData k)))
         \<or> (\<exists>p. PacketParser ?pi = Inr p)"
  have tagged:
    "PacketParser ?pi = parse_l3 (l2_tagged ?c) (u16_at bs 16) 18 (length bs - 14)
      \<and> (\<forall>p. p = l2_tagged ?c \<or> PacketParser ?pi = Inr p \<longrightarrow>
             vlanTagged p = Some True
             \<and> (\<forall>mb. load p \<lparr>mask_type = eth_type_t, mask_bits = mb\<rparr>
                   = Inr \<lparr>field_type = eth_type_t,
                          value_bits = map2 (\<and>) (bits_of [bs ! 16, bs ! 17]) mb,
                          field_mask = mb\<rparr>)
             \<and> (\<forall>mb. load p \<lparr>mask_type = vlan_vid_t, mask_bits = mb\<rparr>
                   = Inr \<lparr>field_type = vlan_vid_t,
                          value_bits = map2 (\<and>) (bits_of [bs ! 14, bs ! 15]) mb,
                          field_mask = mb\<rparr>)
             \<and> load p \<lparr>mask_type = vlan_vid_t,
                         mask_bits = replicate 4 False @ replicate 12 True\<rparr>
                   = Inr \<lparr>field_type = vlan_vid_t,
                          value_bits = replicate 4 False @ drop 4 (bits_of [bs ! 14, bs ! 15]),
                          field_mask = replicate 4 False @ replicate 12 True\<rparr>)
      \<and> ?ends"
    if len: "18 \<le> length bs" and tag: "u16_at bs 12 = 0x8100"
  proof (intro conjI allI impI)
    show "PacketParser ?pi = parse_l3 (l2_tagged ?c) (u16_at bs 16) 18 (length bs - 14)"
      using parse_l2_tagged [of ?c] len tag by (simp add: PacketParser_constructed)
    show ?ends
      using PacketParser_tagged [OF len tag, of port]
      by (cases rule: ends_well_cases) auto
    fix p assume p: "p = l2_tagged ?c \<or> PacketParser ?pi = Inr p"
    have st: "data p = bs \<and> vlan_tagged p = Some True
        \<and> bindings p ETH_TYPE = Some (PacketData 16) \<and> bindings p VLAN_VID = Some (PacketData 14)"
      using p
    proof
      assume "p = l2_tagged ?c"
      then show ?thesis by simp
    next
      assume r: "PacketParser ?pi = Inr p"
      from PacketParser_tagged [OF len tag, of port] show ?thesis
        by (cases rule: ends_well_cases) (use r in \<open>simp_all add: same_but_def\<close>)
    qed
    then have d: "data p = bs" and e: "bindings p ETH_TYPE = Some (PacketData 16)"
      and v: "bindings p VLAN_VID = Some (PacketData 14)" by simp_all
    show "vlanTagged p = Some True" using st by (simp add: vlanTagged_def)
    show "load p \<lparr>mask_type = eth_type_t, mask_bits = mb\<rparr>
                   = Inr \<lparr>field_type = eth_type_t,
                          value_bits = map2 (\<and>) (bits_of [bs ! 16, bs ! 17]) mb,
                          field_mask = mb\<rparr>" for mb
      by (rule tagged_loads(1) [OF d len e v])
    show "load p \<lparr>mask_type = vlan_vid_t, mask_bits = mb\<rparr>
                   = Inr \<lparr>field_type = vlan_vid_t,
                          value_bits = map2 (\<and>) (bits_of [bs ! 14, bs ! 15]) mb,
                          field_mask = mb\<rparr>" for mb
      by (rule tagged_loads(2) [OF d len e v])
    show "load p \<lparr>mask_type = vlan_vid_t,
                         mask_bits = replicate 4 False @ replicate 12 True\<rparr>
                   = Inr \<lparr>field_type = vlan_vid_t,
                          value_bits = replicate 4 False @ drop 4 (bits_of [bs ! 14, bs ! 15]),
                          field_mask = replicate 4 False @ replicate 12 True\<rparr>"
      by (rule tagged_loads(3) [OF d len e v])
  qed
  have untagged:
    "PacketParser ?pi = parse_l3 (l2_untagged ?c) (u16_at bs 12) 14 (length bs - 14)
      \<and> (\<forall>p. p = l2_untagged ?c \<or> PacketParser ?pi = Inr p \<longrightarrow>
             vlanTagged p = Some False \<and> bindings p VLAN_VID = None)
      \<and> ?ends"
    if len: "14 \<le> length bs" and ut: "u16_at bs 12 \<noteq> 0x8100"
  proof (intro conjI allI impI)
    show "PacketParser ?pi = parse_l3 (l2_untagged ?c) (u16_at bs 12) 14 (length bs - 14)"
      using parse_l2_untagged [of ?c] len ut by (simp add: PacketParser_constructed)
    show ?ends
      using PacketParser_untagged [OF len ut, of port]
      by (cases rule: ends_well_cases) auto
    fix p assume p: "p = l2_untagged ?c \<or> PacketParser ?pi = Inr p"
    have st: "vlan_tagged p = Some False \<and> bindings p VLAN_VID = None"
      using p
    proof
      assume "p = l2_untagged ?c"
      then show ?thesis by simp
    next
      assume r: "PacketParser ?pi = Inr p"
      from PacketParser_untagged [OF len ut, of port] show ?thesis
        by (cases rule: ends_well_cases) (use r in \<open>simp_all add: same_but_def\<close>)
    qed
    then show "vlanTagged p = Some False" "bindings p VLAN_VID = None"
      by (simp_all add: vlanTagged_def)
  qed
  show ?thesis
  proof (rule conjI; rule impI)
    assume a: "18 \<le> length bs \<and> u16_at bs 12 = 0x8100"
    show "PacketParser ?pi = parse_l3 (l2_tagged ?c) (u16_at bs 16) 18 (length bs - 14)
      \<and> (\<forall>p. p = l2_tagged ?c \<or> PacketParser ?pi = Inr p \<longrightarrow>
             vlanTagged p = Some True
             \<and> (\<forall>mb. load p \<lparr>mask_type = eth_type_t, mask_bits = mb\<rparr>
                   = Inr \<lparr>field_type = eth_type_t,
                          value_bits = map2 (\<and>) (bits_of [bs ! 16, bs ! 17]) mb,
                          field_mask = mb\<rparr>)
             \<and> (\<forall>mb. load p \<lparr>mask_type = vlan_vid_t, mask_bits = mb\<rparr>
                   = Inr \<lparr>field_type = vlan_vid_t,
                          value_bits = map2 (\<and>) (bits_of [bs ! 14, bs ! 15]) mb,
                          field_mask = mb\<rparr>)
             \<and> load p \<lparr>mask_type = vlan_vid_t,
                         mask_bits = replicate 4 False @ replicate 12 True\<rparr>
                   = Inr \<lparr>field_type = vlan_vid_t,
                          value_bits = replicate 4 False @ drop 4 (bits_of [bs ! 14, bs ! 15]),
                          field_mask = replicate 4 False @ replicate 12 True\<rparr>)
      \<and> ?ends"
      by (rule tagged) (use a in simp_all)
  next
    assume a: "14 \<le> length bs \<and> u16_at bs 12 \<noteq> 0x8100"
    show "PacketParser ?pi = parse_l3 (l2_untagged ?c) (u16_at bs 12) 14 (length bs - 14)
      \<and> (\<forall>p. p = l2_untagged ?c \<or> PacketParser ?pi = Inr p \<longrightarrow>
             vlanTagged p = Some False \<and> bindings p VLAN_VID = None)
      \<and> ?ends"
      by (rule untagged) (use a in simp_all)
  qed
qed


lemmas parser_defs = PacketParser_def init_parser_def parse_l2_def parse_l3_def parse_l4_def
  parse_dhcp_def rd16_def rd8_def be16_def header_length_def cookie_at_def be32_def

lemma vlan_frame_parsed:
  "PacketParser \<lparr>pi_data = Some vlan_frame, pi_in_port = 1\<rparr> = Inr vlan_parser"
  by (simp add: parser_defs vlan_frame_def vlan_parser_def)

text \<open>
  C1.  On a 14-byte frame with Ethernet type \<open>8100\<close> the parser reads the inner type at
  offset 16, past the end of the frame; on such a frame of 17 bytes it reads offset
  17.  \<open>parse_l2\<close> compares the length with 14 only.
\<close>

theorem tag_read_past_short_frame:
  "PacketParser \<lparr>pi_data = Some [0x02, 0, 0, 0, 0, 0x01, 0x02, 0, 0, 0, 0, 0x02, 0x81, 0x00],
                 pi_in_port = 1\<rparr> = Inl (OutOfBounds (PacketData 16))
   \<and> PacketParser \<lparr>pi_data = Some [0x02, 0, 0, 0, 0, 0x01, 0x02, 0, 0, 0, 0, 0x02, 0x81, 0x00,
                                  0xE0, 0x05, 0x08],
                 pi_in_port = 1\<rparr> = Inl (OutOfBounds (PacketData 17))"
  by (simp add: parser_defs)

text \<open>
  C2.  On a 34-byte tagged frame with inner type \<open>0800\<close>, 16 bytes follow offset 18, yet
  the IPv4 fields are bound, the destination address at offset 34, the end of the
  frame: \<open>parse_l2\<close> passes \<open>data_len - 14\<close> as the remaining length also when it
  advanced the pointer by 18.
\<close>

theorem ipv4_bound_past_tagged_frame:
  "length [0x02, 0, 0, 0, 0, 0x01, 0x02, 0, 0, 0, 0, 0x02, 0x81, 0x00, 0xE0, 0x05, 0x08, 0x00,
           0x45, 0, 0, 20, 0, 0, 0, 0, 64, 0x06, 0, 0, 10, 0, 0, 1 :: byte] = 34
   \<and> PacketParser
       \<lparr>pi_data = Some
          [0x02, 0, 0, 0, 0, 0x01, 0x02, 0, 0, 0, 0, 0x02, 0x81, 0x00, 0xE0, 0x05, 0x08, 0x00,
           0x45, 0, 0, 20, 0, 0, 0, 0, 64, 0x06, 0, 0, 10, 0, 0, 1],
        pi_in_port = 1\<rparr>
     = Inr \<lparr>data =
          [0x02, 0, 0, 0, 0, 0x01, 0x02, 0, 0, 0, 0, 0x02, 0x81, 0x00, 0xE0, 0x05, 0x08, 0x00,
           0x45, 0, 0, 20, 0, 0, 0, 0, 64, 0x06, 0, 0, 10, 0, 0, 1],
        in_port = [0, 0, 0, 1],
        bindings = (\<lambda>f. None)
          (IN_PORT := Some InPortMember, ETH_TYPE := Some (PacketData 16),
           ETH_SRC := Some (PacketData 6), ETH_DST := Some (PacketData 0),
           VLAN_VID := Some (PacketData 14), IP_PROTO := Some (PacketData 27),
           IPV4_SRC := Some (PacketData 30), IPV4_DST := Some (PacketData 34)),
        vlan_tagged = Some True, dhcp_options = Map.empty\<rparr>"
  by (simp add: parser_defs)

text \<open>
  C3.  On a 76-byte frame that carries a UDP datagram from port 68 to port 67 with a
  34-byte payload, the options region is empty, and the scan reads the byte at offset
  76, the end of the frame: the loop runs while \<open>i <= data_len - 34\<close>.
\<close>

theorem dhcp_scan_reads_past_end:
  "length [0x02, 0, 0, 0, 0, 0x01, 0x02, 0, 0, 0, 0, 0x02, 0x08, 0x00,
      0x45, 0, 0, 62, 0, 0, 0, 0, 64, 0x11, 0, 0, 10, 0, 0, 1, 10, 0, 0, 2,
      0, 68, 0, 67, 0, 42, 0, 0,
      1, 1, 6, 0, 0, 0, 0, 1, 0, 0, 0, 0, 0, 0, 0, 0, 0, 0, 0, 0, 0, 0, 0, 0, 0, 0, 0, 0,
      0x02, 0, 0, 0, 0, 0x02 :: byte] = 76
   \<and> PacketParser \<lparr>pi_data = Some
     [0x02, 0, 0, 0, 0, 0x01, 0x02, 0, 0, 0, 0, 0x02, 0x08, 0x00,
      0x45, 0, 0, 62, 0, 0, 0, 0, 64, 0x11, 0, 0, 10, 0, 0, 1, 10, 0, 0, 2,
      0, 68, 0, 67, 0, 42, 0, 0,
      1, 1, 6, 0, 0, 0, 0, 1, 0, 0, 0, 0, 0, 0, 0, 0, 0, 0, 0, 0, 0, 0, 0, 0, 0, 0, 0, 0,
      0x02, 0, 0, 0, 0, 0x02], pi_in_port = 1\<rparr>
   = Inl (OutOfBounds (PacketData 76))"
  by (simp add: parser_defs dhcp_scan.simps)

text \<open>
  C4 as stated fails: with TCI \<open>E005\<close>, \<open>load\<close> of the VLAN id under the mask of all
  bits gives \<open>E005\<close>, priority bits included, not the VLAN id 5.
\<close>

theorem vlan_vid_load_counterexample:
  "PacketParser \<lparr>pi_data = Some vlan_frame, pi_in_port = 1\<rparr> = Inr vlan_parser
   \<and> load vlan_parser (exact_mask vlan_vid_t)
       = Inr \<lparr>field_type = vlan_vid_t,
              value_bits = [True, True, True, False, False, False, False, False,
                            False, False, False, False, False, True, False, True],
              field_mask = replicate 16 True\<rparr>
   \<and> drop 4 (bits_of [vlan_frame ! 14, vlan_frame ! 15])
       = [False, False, False, False, False, False, False, False, False, True, False, True]
   \<and> load vlan_parser (exact_mask vlan_vid_t)
       \<noteq> Inr \<lparr>field_type = vlan_vid_t,
              value_bits = replicate 4 False @ drop 4 (bits_of [vlan_frame ! 14, vlan_frame ! 15]),
              field_mask = replicate 16 True\<rparr>"
proof -
  have b: "bits_of [0xE0, 0x05] = [True, True, True, False, False, False, False, False,
             False, False, False, False, False, True, False, True]"
    by code_simp
  have l: "load vlan_parser \<lparr>mask_type = vlan_vid_t, mask_bits = replicate 16 True\<rparr>
             = Inr \<lparr>field_type = vlan_vid_t,
                    value_bits = map2 (\<and>) (bits_of [data vlan_parser ! 14, data vlan_parser ! (14 + 1)])
                                   (replicate 16 True),
                    field_mask = replicate 16 True\<rparr>"
    by (rule load16) (simp_all add: vlan_vid_t_def vlan_parser_def vlan_frame_def)
  have d: "data vlan_parser ! 14 = 0xE0" "data vlan_parser ! (14 + 1) = 0x05"
    "vlan_frame ! 14 = 0xE0" "vlan_frame ! 15 = 0x05"
    by (simp_all add: vlan_parser_def vlan_frame_def)
  have r4: "replicate 4 False = [False, False, False, False]"
    by (simp add: eval_nat_numeral)
  have e: "exact_mask vlan_vid_t = \<lparr>mask_type = vlan_vid_t, mask_bits = replicate 16 True\<rparr>"
    by (simp add: exact_mask_def vlan_vid_t_def)
  show ?thesis
    unfolding e l d b r4
    by (simp add: vlan_frame_parsed map2_and_replicate)
qed

theorem vlan_flag_and_loaded_fields_witness:
  "18 \<le> length vlan_frame \<and> u16_at vlan_frame 12 = 0x8100
   \<and> (\<exists>p. PacketParser \<lparr>pi_data = Some vlan_frame, pi_in_port = 1\<rparr> = Inr p
          \<and> vlanTagged p = Some True
          \<and> load p \<lparr>mask_type = vlan_vid_t,
                      mask_bits = replicate 4 False @ replicate 12 True\<rparr>
              = Inr \<lparr>field_type = vlan_vid_t,
                     value_bits = replicate 4 False
                                    @ drop 4 (bits_of [vlan_frame ! 14, vlan_frame ! 15]),
                     field_mask = replicate 4 False @ replicate 12 True\<rparr>)
   \<and> 14 \<le> length plain_frame \<and> u16_at plain_frame 12 \<noteq> 0x8100
   \<and> (\<exists>p. PacketParser \<lparr>pi_data = Some plain_frame, pi_in_port = 1\<rparr> = Inr p
          \<and> vlanTagged p = Some False \<and> bindings p VLAN_VID = None)"
proof -
  have h1: "18 \<le> length vlan_frame \<and> u16_at vlan_frame 12 = 0x8100"
    by (simp add: vlan_frame_def u16_at_def be16_def)
  have h2: "14 \<le> length plain_frame \<and> u16_at plain_frame 12 \<noteq> 0x8100"
    by (simp add: plain_frame_def u16_at_def be16_def)
  obtain p1 where r1: "PacketParser \<lparr>pi_data = Some vlan_frame, pi_in_port = 1\<rparr> = Inr p1"
    by (simp add: vlan_frame_parsed)
  obtain p2 where r2: "PacketParser \<lparr>pi_data = Some plain_frame, pi_in_port = 1\<rparr> = Inr p2"
    by (simp add: parser_defs plain_frame_def)
  from vlan_flag_and_loaded_fields [of vlan_frame 1] h1 r1
  have c1: "vlanTagged p1 = Some True
          \<and> load p1 \<lparr>mask_type = vlan_vid_t,
                      mask_bits = replicate 4 False @ replicate 12 True\<rparr>
              = Inr \<lparr>field_type = vlan_vid_t,
                     value_bits = replicate 4 False
                                    @ drop 4 (bits_of [vlan_frame ! 14, vlan_frame ! 15]),
                     field_mask = replicate 4 False @ replicate 12 True\<rparr>"
    by blast
  from vlan_flag_and_loaded_fields [of plain_frame 1] h2 r2
  have c2: "vlanTagged p2 = Some False \<and> bindings p2 VLAN_VID = None"
    by blast
  from h1 h2 r1 r2 c1 c2 show ?thesis by blast
qed

theorem untagged_vlan_vid_absent_witness:
  "14 \<le> length plain_frame \<and> u16_at plain_frame 12 \<noteq> 0x8100
   \<and> (\<exists>p. PacketParser \<lparr>pi_data = Some plain_frame, pi_in_port = 1\<rparr> = Inr p
          \<and> bindings p VLAN_VID = None
          \<and> access p vlan_vid_t = Inl (UnsupportedField VLAN_VID)
          \<and> load p (exact_mask vlan_vid_t) = Inl (UnsupportedField VLAN_VID)
          \<and> modify p vid_patch = Inl (UnsupportedField VLAN_VID))"
proof -
  have h: "14 \<le> length plain_frame" "u16_at plain_frame 12 \<noteq> 0x8100"
    by (simp_all add: plain_frame_def u16_at_def be16_def)
  have t: "type_id vlan_vid_t = VLAN_VID" "type_ns vlan_vid_t = OPENFLOW_BASIC"
    "mask_type (exact_mask vlan_vid_t) = vlan_vid_t" "field_type vid_patch = vlan_vid_t"
    by (simp_all add: vlan_vid_t_def exact_mask_def vid_patch_def)
  obtain p where r: "PacketParser \<lparr>pi_data = Some plain_frame, pi_in_port = 1\<rparr> = Inr p"
    by (simp add: parser_defs plain_frame_def)
  from untagged_vlan_vid_absent [OF h t, of 1] r
  have "bindings p VLAN_VID = None
          \<and> access p vlan_vid_t = Inl (UnsupportedField VLAN_VID)
          \<and> load p (exact_mask vlan_vid_t) = Inl (UnsupportedField VLAN_VID)
          \<and> modify p vid_patch = Inl (UnsupportedField VLAN_VID)"
    by blast
  with h r show ?thesis by blast
qed

theorem arp_header_rejected_witness:
  "42 \<le> length arp_frame \<and> u16_at arp_frame 12 = 0x0806 \<and> u16_at arp_frame 14 \<noteq> 1
   \<and> (\<exists>p. PacketParser \<lparr>pi_data = Some arp_frame, pi_in_port = 1\<rparr> = Inr p
          \<and> bindings p ARP_OP = None
          \<and> access p arp_op_t = Inl (UnsupportedField ARP_OP)
          \<and> load p (exact_mask arp_op_t) = Inl (UnsupportedField ARP_OP))"
proof -
  have h: "42 \<le> length arp_frame"
    "(u16_at arp_frame 12 = 0x0806 \<and> (14::nat) = 14)
      \<or> (u16_at arp_frame 12 = 0x8100 \<and> u16_at arp_frame 16 = 0x0806 \<and> (14::nat) = 18)"
    "u16_at arp_frame 14 \<noteq> 1 \<or> u16_at arp_frame (14 + 2) \<noteq> 0x0800
      \<or> arp_frame ! (14 + 4) \<noteq> 6 \<or> arp_frame ! (14 + 5) \<noteq> 4"
    "ARP_OP \<in> {ARP_OP, ARP_SHA, ARP_THA, ARP_SPA, ARP_TPA}"
    "type_id arp_op_t = ARP_OP" "type_ns arp_op_t = OPENFLOW_BASIC"
    "mask_type (exact_mask arp_op_t) = arp_op_t"
    by (simp_all add: arp_frame_def u16_at_def be16_def arp_op_t_def exact_mask_def)
  have h': "u16_at arp_frame 12 = 0x0806" "u16_at arp_frame 14 \<noteq> 1"
    by (simp_all add: arp_frame_def u16_at_def be16_def)
  from arp_header_rejected [OF h, of 1] h(1) h' show ?thesis by blast
qed



theorem bind_rebind_contract_witness:
  "(\<exists>g. bind_fields (constructed [] 1) [(ETH_TYPE, Some (PacketData 12)), (IN_PORT, None)]
          = Inl (AlreadyBound g))
   \<and> bind_fields (constructed [] 1) [(ETH_TYPE, Some (PacketData 12)), (VLAN_VID, None)]
       = Inr ((constructed [] 1)\<lparr>bindings := set_slots (bindings (constructed [] 1))
                [(ETH_TYPE, Some (PacketData 12)), (VLAN_VID, None)]\<rparr>)
   \<and> (\<exists>g. rebind (constructed [] 1) [(IN_PORT, Some (PacketData 12)), (ETH_TYPE, None)]
          = Inl (NotBound g))
   \<and> rebind (constructed [] 1) [(IN_PORT, Some (PacketData 12)), (IN_PORT, Some (PacketData 0))]
       = Inr ((constructed [] 1)\<lparr>bindings := set_slots (bindings (constructed [] 1))
                [(IN_PORT, Some (PacketData 12)), (IN_PORT, Some (PacketData 0))]\<rparr>)"
  using
    bind_rebind_contract [of 1 "[(ETH_TYPE, Some (PacketData 12)), (IN_PORT, None)]"
      "constructed [] 1" IN_PORT None]
    bind_rebind_contract [of 0 "[(ETH_TYPE, Some (PacketData 12)), (VLAN_VID, None)]"
      "constructed [] 1" IN_PORT None]
    bind_rebind_contract [of 1 "[(IN_PORT, Some (PacketData 12)), (ETH_TYPE, None)]"
      "constructed [] 1" ETH_TYPE None]
    bind_rebind_contract [of 0 "[(IN_PORT, Some (PacketData 12)), (IN_PORT, Some (PacketData 0))]"
      "constructed [] 1" ETH_TYPE None]
  by (simp add: less_Suc_eq)

subsection \<open>The DHCP option table\<close>

lemma rd8_drop_nth:
  assumes "drop k (data p) = ys" "j < length ys"
  shows "rd8 p (k + j) = Inr (ys ! j)"
proof -
  from assms have "k + j < length (data p)" by auto
  moreover from this have "data p ! (k + j) = drop k (data p) ! j" by simp
  ultimately show ?thesis using assms(1) by (simp add: rd8_def)
qed

lemma drop_drop_eq:
  assumes "drop k xs = ys @ zs"
  shows "drop (k + length ys) xs = zs"
proof -
  have "drop (k + length ys) xs = drop (length ys) (drop k xs)"
    by (simp add: add.commute)
  then show ?thesis by (simp add: assms)
qed

lemma scan_options:
  assumes "drop (opts + i) (data p) = encode_opts os @ 0xFF # rest"
    and "\<forall>(c, v)\<in>set os. c \<noteq> 0xFF \<and> length v < 256"
    and "i + length (encode_opts os) \<le> n"
  shows "dhcp_scan p opts n i True
           = Inr (p\<lparr>dhcp_options := scanned (opts + i) os (dhcp_options p)\<rparr>)"
  using assms
proof (induction os arbitrary: p i)
  case Nil
  have "rd8 p (opts + i + 0) = Inr ((0xFF # rest) ! 0)"
    using Nil.prems(1) by (intro rd8_drop_nth) simp_all
  then show ?case
    using Nil.prems(3) by (subst dhcp_scan.simps) simp
next
  case (Cons e os)
  obtain c v where e: "e = (c, v)" by (cases e)
  define l :: byte where "l = word_of_nat (length v)"
  define tail where "tail = encode_opts os @ 0xFF # rest"
  from Cons.prems(2) have c: "c \<noteq> 0xFF" and lv: "length v < 256"
    by (auto simp: e)
  have ul: "unat l = length v"
    using lv by (simp add: l_def unat_of_nat)
  have d0: "drop (opts + i) (data p) = (c # l # v) @ tail"
    using Cons.prems(1) by (simp add: e l_def tail_def)
  have r0: "rd8 p (opts + i) = Inr c"
    using rd8_drop_nth [OF d0, of 0] by simp
  have r1: "rd8 p (opts + i + 1) = Inr l"
    using rd8_drop_nth [OF d0, of 1] by simp
  define p' where "p' = p\<lparr>dhcp_options := (dhcp_options p)
     (c \<mapsto> \<lparr>opt_code = c, opt_len = l, opt_data = Some (opts + i + 2)\<rparr>)\<rparr>"
  define i' where "i' = i + (unat l + 1) + 1"
  have d2: "drop (opts + i') (data p') = encode_opts os @ 0xFF # rest"
    using drop_drop_eq [OF d0] by (simp add: i'_def ul p'_def tail_def add.assoc)
  have n': "i' + length (encode_opts os) \<le> n"
    using Cons.prems(3) by (simp add: e i'_def ul)
  have wf': "\<forall>(c, v)\<in>set os. c \<noteq> 0xFF \<and> length v < 256"
    using Cons.prems(2) by simp
  have ih: "dhcp_scan p' opts n i' True
              = Inr (p'\<lparr>dhcp_options := scanned (opts + i') os (dhcp_options p')\<rparr>)"
    using d2 wf' n' by (rule Cons.IH)
  have fin: "p'\<lparr>dhcp_options := scanned (opts + i') os (dhcp_options p')\<rparr>
               = p\<lparr>dhcp_options := scanned (opts + i) (e # os) (dhcp_options p)\<rparr>"
    by (simp add: p'_def i'_def e ul [unfolded l_def] l_def add.assoc add.commute add.left_commute)
  have le: "i \<le> n" using Cons.prems(3) by simp
  have "dhcp_scan p opts n i True = dhcp_scan p' opts n i' True"
    using le c by (subst dhcp_scan.simps, unfold r0 r1) (simp add: p'_def i'_def)
  then show ?case by (simp only: ih fin)
qed

lemma scan_cookie:
  assumes "drop (opts + i) (data p) = filler @ [0x63, 0x82, 0x53, 0x63] @ tail"
    and "0x63 \<notin> set filler"
    and "i + length filler + 3 \<le> n"
  shows "dhcp_scan p opts n i False = dhcp_scan p opts n (i + length filler + 4) True"
  using assms
proof (induction filler arbitrary: i)
  case Nil
  then have d: "drop (opts + i) (data p) = [0x63, 0x82, 0x53, 0x63] @ tail" by simp
  have r: "rd8 p (opts + i) = Inr 0x63" "rd8 p (opts + i + 1) = Inr 0x82"
    "rd8 p (opts + i + 2) = Inr 0x53" "rd8 p (opts + i + 3) = Inr 0x63"
    using rd8_drop_nth [OF d, of 0] rd8_drop_nth [OF d, of 1]
      rd8_drop_nth [OF d, of 2] rd8_drop_nth [OF d, of 3] by simp_all
  have "cookie_at p opts n i = Inr True"
    unfolding cookie_at_def r using Nil.prems(3) by simp
  then show ?case
    using Nil.prems(3) by (subst dhcp_scan.simps) (simp add: add.commute)
next
  case (Cons b filler)
  have d: "drop (opts + i) (data p) = [b] @ (filler @ [0x63, 0x82, 0x53, 0x63] @ tail)"
    using Cons.prems(1) by simp
  have b: "b \<noteq> 0x63" using Cons.prems(2) by auto
  have "rd8 p (opts + i) = Inr b"
    using rd8_drop_nth [OF d, of 0] by simp
  then have ck: "cookie_at p opts n i = Inr False"
    unfolding cookie_at_def using b by simp
  have d': "drop (opts + (i + 1)) (data p) = filler @ [0x63, 0x82, 0x53, 0x63] @ tail"
    using drop_drop_eq [OF d] by (simp add: add.assoc)
  have "dhcp_scan p opts n (i + 1) False = dhcp_scan p opts n (i + 1 + length filler + 4) True"
    using d' Cons.prems(2,3) by (intro Cons.IH) simp_all
  moreover have "dhcp_scan p opts n i False = dhcp_scan p opts n (i + 1) False"
    using Cons.prems(3) by (subst dhcp_scan.simps) (simp add: ck)
  ultimately show ?case by simp
qed


lemma encode_opts_append: "encode_opts (xs @ ys) = encode_opts xs @ encode_opts ys"
  by (induction xs rule: encode_opts.induct) simp_all

lemma scanned_other: "c \<notin> fst ` set os \<Longrightarrow> scanned k os t c = t c"
  by (induction k os t rule: scanned.induct) auto

lemma scanned_append:
  "scanned k (xs @ ys) t = scanned (k + length (encode_opts xs)) ys (scanned k xs t)"
proof (induction xs arbitrary: k t)
  case Nil
  show ?case by simp
next
  case (Cons e xs)
  obtain c v where e: "e = (c, v)" by (cases e)
  define t' where "t' = t(c \<mapsto> \<lparr>opt_code = c, opt_len = word_of_nat (length v),
                                 opt_data = Some (k + 2)\<rparr>)"
  have "scanned k ((e # xs) @ ys) t = scanned (k + 2 + length v) (xs @ ys) t'"
    by (simp add: e t'_def)
  also have "\<dots> = scanned (k + 2 + length v + length (encode_opts xs)) ys
                      (scanned (k + 2 + length v) xs t')"
    by (rule Cons.IH)
  also have "\<dots> = scanned (k + length (encode_opts (e # xs))) ys (scanned k (e # xs) t)"
    by (simp add: e t'_def add.assoc)
  finally show ?case .
qed

lemma scanned_last:
  assumes "c \<notin> fst ` set post"
  shows "scanned k (pre @ (c, v) # post) t c
           = Some \<lparr>opt_code = c, opt_len = word_of_nat (length v),
                   opt_data = Some (k + length (encode_opts pre) + 2)\<rparr>"
  using assms by (simp add: scanned_append scanned_other)

lemma option_value_bytes:
  assumes "drop base bs = encode_opts (pre @ (c, v) # post) @ tail"
  shows "take (length v) (drop (base + length (encode_opts pre) + 2) bs) = v"
proof -
  have "drop base bs = encode_opts pre @ ([c, word_of_nat (length v)] @ v @ encode_opts post @ tail)"
    using assms by (simp add: encode_opts_append)
  then have "drop (base + length (encode_opts pre)) bs
               = [c, word_of_nat (length v)] @ v @ encode_opts post @ tail"
    by (rule drop_drop_eq)
  then have "drop (base + length (encode_opts pre) + length [c, word_of_nat (length v) :: byte]) bs
               = v @ encode_opts post @ tail"
    by (rule drop_drop_eq)
  then show ?thesis by simp
qed

lemma parse_dhcp_scanned:
  assumes free: "\<forall>f\<in>dhcp_fields. bindings p f = None"
    and pay: "drop (d + 34) (data p)
                = filler @ [0x63, 0x82, 0x53, 0x63] @ encode_opts os @ 0xFF # rest"
    and nf: "0x63 \<notin> set filler"
    and wf: "\<forall>(c, v)\<in>set os. c \<noteq> 0xFF \<and> length v < 256"
    and n: "34 + length filler + 4 + length (encode_opts os) \<le> n"
  shows "\<exists>p'. parse_dhcp p d n = Inr p' \<and> data p' = data p
           \<and> dhcp_options p' = scanned (d + 34 + length filler + 4) os (dhcp_options p)"
proof -
  define p1 where "p1 = p\<lparr>bindings := (bindings p)
     (DHCP_OP := Some (PacketData d), DHCP_XID := Some (PacketData (d + 4)),
      DHCP_CIADDR := Some (PacketData (d + 12)), DHCP_YIADDR := Some (PacketData (d + 16)),
      DHCP_CHADDR := Some (PacketData (d + 28)))\<rparr>"
  have b: "bind_fields p
                 [(DHCP_OP, Some (PacketData d)),
                  (DHCP_XID, Some (PacketData (d + 4))),
                  (DHCP_CIADDR, Some (PacketData (d + 12))),
                  (DHCP_YIADDR, Some (PacketData (d + 16))),
                  (DHCP_CHADDR, Some (PacketData (d + 28)))] = Inr p1"
    using free by (simp add: dhcp_fields_def p1_def)
  have d1: "data p1 = data p" "dhcp_options p1 = dhcp_options p"
    by (simp_all add: p1_def)
  have pay0: "drop (d + 34 + 0) (data p1)
                = filler @ [0x63, 0x82, 0x53, 0x63] @ (encode_opts os @ 0xFF # rest)"
    using pay by (simp add: d1)
  have s1: "dhcp_scan p1 (d + 34) (n - 34) 0 False
              = dhcp_scan p1 (d + 34) (n - 34) (0 + length filler + 4) True"
    using pay0 nf by (rule scan_cookie) (use n in simp)
  have "drop (d + 34) (data p1)
                = (filler @ [0x63, 0x82, 0x53, 0x63]) @ (encode_opts os @ 0xFF # rest)"
    using pay by (simp add: d1)
  then have "drop (d + 34 + length (filler @ [0x63, 0x82, 0x53, 0x63 :: byte])) (data p1)
                = encode_opts os @ 0xFF # rest"
    by (rule drop_drop_eq)
  then have pay1: "drop (d + 34 + (0 + length filler + 4)) (data p1)
                = encode_opts os @ 0xFF # rest"
    by simp
  have s2: "dhcp_scan p1 (d + 34) (n - 34) (0 + length filler + 4) True
              = Inr (p1\<lparr>dhcp_options :=
                   scanned (d + 34 + (0 + length filler + 4)) os (dhcp_options p1)\<rparr>)"
    using pay1 wf by (rule scan_options) (use n in simp)
  have "parse_dhcp p d n = dhcp_scan p1 (d + 34) (n - 34) 0 False"
    unfolding parse_dhcp_def b using n by simp
  then have "parse_dhcp p d n = Inr (p1\<lparr>dhcp_options :=
                   scanned (d + 34 + (0 + length filler + 4)) os (dhcp_options p1)\<rparr>)"
    by (simp only: s1 s2)
  then show ?thesis
    by (simp add: d1 add.assoc)
qed

lemma parse_l4_udp_dhcp:
  assumes free: "\<forall>f\<in>l4_fields. bindings p f = None"
    and n: "8 < n" and len: "d + 4 \<le> length (data p)"
    and ports: "u16_at (data p) d = 68" "u16_at (data p) (d + 2) = 67"
  shows "parse_l4 p 0x11 d n
           = parse_dhcp (p\<lparr>bindings := (bindings p)
               (UDP_SRC := Some (PacketData d), UDP_DST := Some (PacketData (d + 2)))\<rparr>)
               (d + 8) (n - 8)"
proof -
  define p1 where "p1 = p\<lparr>bindings := (bindings p)
       (UDP_SRC := Some (PacketData d), UDP_DST := Some (PacketData (d + 2)))\<rparr>"
  have b: "bind_fields p
               [(UDP_SRC, Some (PacketData d)), (UDP_DST, Some (PacketData (d + 2)))] = Inr p1"
    using free by (simp add: l4_fields_def p1_def)
  have r: "rd16 p1 d = Inr 68" "rd16 p1 (d + 2) = Inr 67"
    using len ports by (simp_all add: rd16_in p1_def)
  have "parse_l4 p 0x11 d n = parse_dhcp p1 (d + 8) (n - 8)"
    unfolding parse_l4_def b bindF_Inr r using n by simp
  then show ?thesis by (simp add: p1_def)
qed

lemma parse_l3_ipv4_l4:
  assumes free: "\<forall>f\<in>l3_fields. bindings p f = None"
    and n: "20 \<le> n" "header_length (data p ! d) < n" and len: "d + 10 \<le> length (data p)"
  shows "parse_l3 p 0x0800 d n
           = parse_l4 (p\<lparr>bindings := (bindings p)
               (IP_PROTO := Some (PacketData (d + 9)), IPV4_SRC := Some (PacketData (d + 12)),
                IPV4_DST := Some (PacketData (d + 16)))\<rparr>)
               (data p ! (d + 9)) (d + header_length (data p ! d))
               (n - header_length (data p ! d))"
proof -
  define p1 where "p1 = p\<lparr>bindings := (bindings p)
       (IP_PROTO := Some (PacketData (d + 9)), IPV4_SRC := Some (PacketData (d + 12)),
        IPV4_DST := Some (PacketData (d + 16)))\<rparr>"
  have b: "bind_fields p
                    [(IP_PROTO, Some (PacketData (d + 9))),
                     (IPV4_SRC, Some (PacketData (d + 12))),
                     (IPV4_DST, Some (PacketData (d + 16)))] = Inr p1"
    using free by (simp add: l3_fields_def p1_def)
  have r: "rd8 p1 d = Inr (data p ! d)" "rd8 p1 (d + 9) = Inr (data p ! (d + 9))"
    using len by (simp_all add: rd8_in p1_def)
  have "parse_l3 p 0x0800 d n
          = parse_l4 p1 (data p ! (d + 9)) (d + header_length (data p ! d))
              (n - header_length (data p ! d))"
    unfolding parse_l3_def b bindF_Inr r using n by simp
  then show ?thesis by (simp add: p1_def)
qed

text \<open>
  C6.  A frame, untagged or tagged, that carries IPv4 with protocol 17 and a UDP
  datagram from port 68 to port 67 whose payload is the 34-byte fixed header, bytes
  free of \<open>63\<close>, the cookie, a list of options none of which has code \<open>FF\<close> or more than
  255 value bytes, and \<open>FF\<close>: the constructor returns; \<open>get_dhcp_option\<close> of a code that
  is not in the list is the empty entry; for a code in the list it is the entry of the
  code's last option in the list, with that option's length and a view of its value
  bytes.
\<close>

theorem dhcp_option_table:
  assumes eth: "(u16_at bs 12 = 0x0800 \<and> e = 14)
                \<or> (u16_at bs 12 = 0x8100 \<and> u16_at bs 16 = 0x0800 \<and> e = 18)"
    and ip: "bs ! (e + 9) = 0x11" and hl: "hl = header_length (bs ! e)"
    and udp: "u16_at bs (e + hl) = 68" "u16_at bs (e + hl + 2) = 67"
    and pay: "drop (e + hl + 8 + 34) bs
                = filler @ [0x63, 0x82, 0x53, 0x63] @ encode_opts os @ 0xFF # rest"
    and nf: "0x63 \<notin> set filler"
    and wf: "\<forall>(c, v)\<in>set os. c \<noteq> 0xFF \<and> length v < 256"
    and base: "base = e + hl + 8 + 34 + length filler + 4"
  shows "\<exists>p. PacketParser \<lparr>pi_data = Some bs, pi_in_port = port\<rparr> = Inr p
           \<and> (\<forall>c. c \<notin> fst ` set os \<longrightarrow> get_dhcp_option p c = dhcp_opt_empty)
           \<and> (\<forall>pre c v post. os = pre @ (c, v) # post \<and> c \<notin> fst ` set post \<longrightarrow>
                 get_dhcp_option p c
                   = \<lparr>opt_code = c, opt_len = word_of_nat (length v),
                      opt_data = Some (base + length (encode_opts pre) + 2)\<rparr>
                 \<and> take (length v) (drop (base + length (encode_opts pre) + 2) (data p)) = v)"
proof -
  let ?pi = "\<lparr>pi_data = Some bs, pi_in_port = port\<rparr>"
  let ?c = "constructed bs port"
  define E where "E = length (encode_opts os)"
  define F where "F = length filler"
  have "length (drop (e + hl + 8 + 34) bs)
          = length (filler @ [0x63, 0x82, 0x53, 0x63] @ encode_opts os @ 0xFF # rest)"
    by (simp only: pay)
  then have L: "length bs = e + hl + 8 + 34 + F + 4 + E + 1 + length rest"
    by (simp add: E_def F_def)
  have e: "e = 14 \<or> e = 18" using eth by auto
  from eth obtain p1 where run: "PacketParser ?pi = parse_l3 p1 0x0800 e (length bs - 14)"
    and p1: "data p1 = bs" "\<forall>f\<in>l3_fields. bindings p1 f = None"
      "dhcp_options p1 = Map.empty"
  proof
    assume a: "u16_at bs 12 = 0x0800 \<and> e = 14"
    have "PacketParser ?pi = parse_l3 (l2_untagged ?c) 0x0800 e (length bs - 14)"
      using parse_l2_untagged [of ?c] L a by (simp add: PacketParser_constructed)
    moreover have "data (l2_untagged ?c) = bs" "\<forall>f\<in>l3_fields. bindings (l2_untagged ?c) f = None"
      "dhcp_options (l2_untagged ?c) = Map.empty"
      by (auto simp: l2_untagged_def constructed_def l3_fields_def l4_fields_def dhcp_fields_def)
    ultimately show ?thesis by (rule that)
  next
    assume a: "u16_at bs 12 = 0x8100 \<and> u16_at bs 16 = 0x0800 \<and> e = 18"
    have "PacketParser ?pi = parse_l3 (l2_tagged ?c) 0x0800 e (length bs - 14)"
      using parse_l2_tagged [of ?c] L a by (simp add: PacketParser_constructed)
    moreover have "data (l2_tagged ?c) = bs" "\<forall>f\<in>l3_fields. bindings (l2_tagged ?c) f = None"
      "dhcp_options (l2_tagged ?c) = Map.empty"
      by (auto simp: l2_tagged_def constructed_def l3_fields_def l4_fields_def dhcp_fields_def)
    ultimately show ?thesis by (rule that)
  qed
  define p2 where "p2 = p1\<lparr>bindings := (bindings p1)
               (IP_PROTO := Some (PacketData (e + 9)), IPV4_SRC := Some (PacketData (e + 12)),
                IPV4_DST := Some (PacketData (e + 16)))\<rparr>"
  define p3 where "p3 = p2\<lparr>bindings := (bindings p2)
               (UDP_SRC := Some (PacketData (e + hl)),
                UDP_DST := Some (PacketData (e + hl + 2)))\<rparr>"
  have p2: "data p2 = bs" "\<forall>f\<in>l4_fields. bindings p2 f = None"
    using p1 by (auto simp: p2_def l3_fields_def l4_fields_def dhcp_fields_def)
  have p3: "data p3 = bs" "\<forall>f\<in>dhcp_fields. bindings p3 f = None" "dhcp_options p3 = Map.empty"
    using p2 p1 by (auto simp: p3_def p2_def l4_fields_def dhcp_fields_def)
  have "parse_l3 p1 0x0800 e (length bs - 14)
          = parse_l4 p2 (data p1 ! (e + 9)) (e + header_length (data p1 ! e))
              (length bs - 14 - header_length (data p1 ! e))"
    unfolding p2_def using p1(2) by (rule parse_l3_ipv4_l4) (use L e hl p1 in auto)
  then have s3: "parse_l3 p1 0x0800 e (length bs - 14)
                   = parse_l4 p2 0x11 (e + hl) (length bs - 14 - hl)"
    using p1 ip hl by simp
  have s4: "parse_l4 p2 0x11 (e + hl) (length bs - 14 - hl)
              = parse_dhcp p3 (e + hl + 8) (length bs - 14 - hl - 8)"
    unfolding p3_def using p2(2) by (rule parse_l4_udp_dhcp) (use L e udp p2 in auto)
  have "\<exists>p'. parse_dhcp p3 (e + hl + 8) (length bs - 14 - hl - 8) = Inr p' \<and> data p' = data p3
           \<and> dhcp_options p' = scanned (e + hl + 8 + 34 + length filler + 4) os (dhcp_options p3)"
    using p3(2) _ nf wf by (rule parse_dhcp_scanned) (use L e pay p3 in \<open>auto simp: E_def F_def\<close>)
  then obtain p' where res: "PacketParser ?pi = Inr p'" and d: "data p' = bs"
    and tab: "dhcp_options p' = scanned base os Map.empty"
    using run s3 s4 p3 base by auto
  have absent: "get_dhcp_option p' c = dhcp_opt_empty" if "c \<notin> fst ` set os" for c
    using that by (simp add: get_dhcp_option_def tab scanned_other)
  have present: "get_dhcp_option p' c
                   = \<lparr>opt_code = c, opt_len = word_of_nat (length v),
                      opt_data = Some (base + length (encode_opts pre) + 2)\<rparr>
                 \<and> take (length v) (drop (base + length (encode_opts pre) + 2) (data p')) = v"
    if os: "os = pre @ (c, v) # post" and last: "c \<notin> fst ` set post" for pre c v post
  proof -
    have "drop (e + hl + 8 + 34) bs
            = (filler @ [0x63, 0x82, 0x53, 0x63]) @ (encode_opts os @ 0xFF # rest)"
      using pay by simp
    then have "drop (e + hl + 8 + 34 + length (filler @ [0x63, 0x82, 0x53, 0x63 :: byte])) bs
            = encode_opts os @ 0xFF # rest"
      by (rule drop_drop_eq)
    moreover have "e + hl + 8 + 34 + length (filler @ [0x63, 0x82, 0x53, 0x63 :: byte]) = base"
      by (simp add: base)
    ultimately have "drop base bs = encode_opts (pre @ (c, v) # post) @ 0xFF # rest"
      by (simp only: os)
    then have "take (length v) (drop (base + length (encode_opts pre) + 2) bs) = v"
      by (rule option_value_bytes)
    moreover have "get_dhcp_option p' c
                   = \<lparr>opt_code = c, opt_len = word_of_nat (length v),
                      opt_data = Some (base + length (encode_opts pre) + 2)\<rparr>"
      using last by (simp add: get_dhcp_option_def tab os scanned_last)
    ultimately show ?thesis by (simp add: d)
  qed
  from res absent present show ?thesis by blast
qed


theorem dhcp_option_table_witness:
  "u16_at dhcp_frame 12 = 0x0800 \<and> dhcp_frame ! (14 + 9) = 0x11
   \<and> header_length (dhcp_frame ! 14) = 20
   \<and> u16_at dhcp_frame (14 + 20) = 68 \<and> u16_at dhcp_frame (14 + 20 + 2) = 67
   \<and> drop (14 + 20 + 8 + 34) dhcp_frame
        = [] @ [0x63, 0x82, 0x53, 0x63] @ encode_opts [(53, [0x02])] @ 0xFF # []
   \<and> (\<exists>p. PacketParser \<lparr>pi_data = Some dhcp_frame, pi_in_port = 1\<rparr> = Inr p
          \<and> get_dhcp_option p 53 = \<lparr>opt_code = 53, opt_len = 1, opt_data = Some 82\<rparr>
          \<and> take 1 (drop 82 (data p)) = [0x02]
          \<and> get_dhcp_option p 99 = dhcp_opt_empty)"
proof -
  have h: "(u16_at dhcp_frame 12 = 0x0800 \<and> (14::nat) = 14)
             \<or> (u16_at dhcp_frame 12 = 0x8100 \<and> u16_at dhcp_frame 16 = 0x0800 \<and> (14::nat) = 18)"
    "dhcp_frame ! (14 + 9) = 0x11" "20 = header_length (dhcp_frame ! 14)"
    "u16_at dhcp_frame (14 + 20) = 68" "u16_at dhcp_frame (14 + 20 + 2) = 67"
    "drop (14 + 20 + 8 + 34) dhcp_frame
        = [] @ [0x63, 0x82, 0x53, 0x63] @ encode_opts [(53, [0x02])] @ 0xFF # []"
    "0x63 \<notin> set ([] :: byte list)"
    "\<forall>(c, v)\<in>set [(53 :: byte, [0x02 :: byte])]. c \<noteq> 0xFF \<and> length v < 256"
    "(80::nat) = 14 + 20 + 8 + 34 + length ([] :: byte list) + 4"
    by (simp_all add: dhcp_frame_def u16_at_def be16_def header_length_def)
  from dhcp_option_table [OF h, of 1]
  obtain p where p: "PacketParser \<lparr>pi_data = Some dhcp_frame, pi_in_port = 1\<rparr> = Inr p"
    and absent: "\<And>c. c \<notin> fst ` set [(53 :: byte, [0x02 :: byte])]
                   \<Longrightarrow> get_dhcp_option p c = dhcp_opt_empty"
    and present: "\<And>pre c v post.
        [(53 :: byte, [0x02 :: byte])] = pre @ (c, v) # post \<Longrightarrow> c \<notin> fst ` set post \<Longrightarrow>
           get_dhcp_option p c
             = \<lparr>opt_code = c, opt_len = word_of_nat (length v),
                opt_data = Some (80 + length (encode_opts pre) + 2)\<rparr>
           \<and> take (length v) (drop (80 + length (encode_opts pre) + 2) (data p)) = v"
    by blast
  have "get_dhcp_option p 99 = dhcp_opt_empty"
    by (rule absent) simp
  moreover from present [of "[]" 53 "[0x02]" "[]"]
  have "get_dhcp_option p 53 = \<lparr>opt_code = 53, opt_len = 1, opt_data = Some 82\<rparr>"
    "take 1 (drop 82 (data p)) = [0x02]"
    by simp_all
  ultimately show ?thesis
    using p h(2-6) h(1) by (simp del: One_nat_def)
qed

end
